theory Spec2Isabelle
  imports Main "HOL-Library.AList" "HOL-Library.Char_ord" "HOL-Library.List_Lexorder"
begin

section \<open>Errors\<close>

text \<open>
  The source raises errors of kind TypeError and ValueError through
  \<^verbatim>\<open>TVM_FFI_THROW\<close>; a failed \<^verbatim>\<open>ICHECK\<close> and \<^verbatim>\<open>LOG(FATAL)\<close> raise an
  InternalError, the fatal kind. The message text is not modelled.
\<close>

datatype error = TypeError | ValueError | InternalError

section \<open>Quoting and escaping (target.cc)\<close>

definition quote :: char where
  "quote = CHR 0x27"

definition escape :: char where
  "escape = CHR 0x5C"

text \<open>
  The loop of \<^verbatim>\<open>IsQuoted\<close> over the characters strictly between the first and the
  last one; the flag is \<^verbatim>\<open>escaping\<close>. The value at the end of the input is the
  final \<^verbatim>\<open>return !escaping\<close>.
\<close>

fun IsQuoted_loop :: "string \<Rightarrow> bool \<Rightarrow> bool" where
  "IsQuoted_loop [] escaping = (\<not> escaping)"
| "IsQuoted_loop (c # cs) escaping =
     (if escaping then IsQuoted_loop cs False
      else if c = escape then IsQuoted_loop cs True
      else if c = quote then False
      else IsQuoted_loop cs escaping)"

definition IsQuoted :: "string \<Rightarrow> bool" where
  "IsQuoted str =
     (if length str < 2 \<or> str ! 0 \<noteq> quote \<or> str ! (length str - 1) \<noteq> quote then False
      else IsQuoted_loop (take (length str - 2) (drop 1 str)) False)"

definition Quote :: "string \<Rightarrow> string" where
  "Quote str = [quote] @ str @ [quote]"

text \<open>
  The loop of \<^verbatim>\<open>Interpret\<close>: the remaining input, \<^verbatim>\<open>inside_quote\<close>,
  \<^verbatim>\<open>escaping\<close> and the \<^verbatim>\<open>result\<close> built so far. The \<^verbatim>\<open>continue\<close> of the
  source skips the \<^verbatim>\<open>push_back\<close> for an escape character met outside a quoted
  substring.
\<close>

fun Interpret_loop :: "string \<Rightarrow> bool \<Rightarrow> bool \<Rightarrow> string \<Rightarrow> string" where
  "Interpret_loop [] inside_quote escaping result = result"
| "Interpret_loop (c # cs) inside_quote escaping result =
     (if escaping then Interpret_loop cs inside_quote False (result @ [c])
      else if c = escape then
        (if \<not> inside_quote then Interpret_loop cs inside_quote True result
         else Interpret_loop cs inside_quote True (result @ [c]))
      else if c = quote then Interpret_loop cs (\<not> inside_quote) escaping (result @ [c])
      else Interpret_loop cs inside_quote escaping (result @ [c]))"

definition Interpret :: "string \<Rightarrow> string" where
  "Interpret str =
     (if str = [] then []
      else if IsQuoted str
        then Interpret_loop (take (length str - 2) (drop 1 str)) False False []
        else Interpret_loop str False False [])"

fun Uninterpret :: "string \<Rightarrow> string" where
  "Uninterpret [] = []"
| "Uninterpret (c # cs) =
     (if c = escape \<or> c = quote then escape # c # Uninterpret cs else c # Uninterpret cs)"

section \<open>Splitting and joining\<close>

text \<open>
  \<^verbatim>\<open>JoinString\<close> checks its separator first; the loop puts the separator before
  every element but the first.
\<close>

fun JoinString_loop :: "string list \<Rightarrow> char \<Rightarrow> bool \<Rightarrow> string \<Rightarrow> string" where
  "JoinString_loop [] separator is_first result = result"
| "JoinString_loop (s # array) separator is_first result =
     JoinString_loop array separator False
       ((if \<not> is_first then result @ [separator] else result) @ s)"

definition JoinString :: "string list \<Rightarrow> char \<Rightarrow> error + string" where
  "JoinString array separator =
     (if separator \<noteq> quote \<and> separator \<noteq> escape
      then Inr (JoinString_loop array separator True [])
      else Inl InternalError)"

text \<open>
  The lambda \<^verbatim>\<open>finish_word\<close> of \<^verbatim>\<open>SplitString\<close>, on the pair of the current
  word and the output: a non-empty word is appended to the output and the word is reset.
\<close>

definition finish_word :: "string \<times> string list \<Rightarrow> string \<times> string list" where
  "finish_word wo = (if fst wo \<noteq> [] then ([], snd wo @ [fst wo]) else wo)"

text \<open>
  The \<^verbatim>\<open>while (pos < end)\<close> loop of \<^verbatim>\<open>SplitString\<close>: the input from \<^verbatim>\<open>pos\<close> on,
  \<^verbatim>\<open>pos_quoted\<close>, the current word and the output. After the loop the source checks
  \<^verbatim>\<open>ICHECK(!pos_quoted)\<close> and finishes the last word.
\<close>

fun SplitString_loop ::
  "char \<Rightarrow> string \<Rightarrow> bool \<Rightarrow> string \<Rightarrow> string list \<Rightarrow> error + string list" where
  "SplitString_loop separator [] pos_quoted current_word output =
     (if pos_quoted then Inl InternalError
      else Inr (snd (finish_word (current_word, output))))"
| "SplitString_loop separator (c # cs) pos_quoted current_word output =
     (if c = separator \<and> \<not> pos_quoted then
        SplitString_loop separator cs pos_quoted
          (fst (finish_word (current_word, output))) (snd (finish_word (current_word, output)))
      else if c = escape \<and> cs \<noteq> [] then
        SplitString_loop separator (tl cs) pos_quoted (current_word @ [escape, hd cs]) output
      else if c = quote then
        SplitString_loop separator cs (\<not> pos_quoted) (current_word @ [quote]) output
      else SplitString_loop separator cs pos_quoted (current_word @ [c]) output)"

definition SplitString :: "string \<Rightarrow> char \<Rightarrow> error + string list" where
  "SplitString str separator = SplitString_loop separator str False [] []"

section \<open>Key/value flags\<close>

text \<open>\<^verbatim>\<open>std::string::find_first_of(ch)\<close>: the first index holding the character, if any.\<close>

fun find_first_of :: "string \<Rightarrow> char \<Rightarrow> nat option" where
  "find_first_of [] ch = None"
| "find_first_of (c # cs) ch =
     (if c = ch then Some 0 else map_option Suc (find_first_of cs ch))"

text \<open>
  \<^verbatim>\<open>ParseKVPair\<close> returns the number of tokens consumed and writes key and value
  through its pointer arguments; the model returns the three together.
\<close>

definition ParseKVPair :: "string \<Rightarrow> string \<Rightarrow> error + (nat \<times> string \<times> string)" where
  "ParseKVPair s s_next =
     (case find_first_of s (CHR ''='') of
        Some pos \<Rightarrow>
          (let result_k = take pos s; result_v = drop (pos + 1) s in
           if result_k = [] \<or> result_v = [] then Inl ValueError
           else Inr (1, result_k, result_v))
      | None \<Rightarrow>
          (if s_next \<noteq> [] \<and> s_next ! 0 \<noteq> CHR ''-'' then Inr (2, s, s_next)
           else Inr (1, s, ''1'')))"

section \<open>The context stack\<close>

text \<open>
  A \<^verbatim>\<open>Target\<close> is a reference to a node: two references are the same object
  (\<^verbatim>\<open>same_as\<close>) when they hold the same address, whatever the nodes look like.
  The node type is left open here.
\<close>

record 'n Target =
  address :: nat
  node :: 'n

definition same_as :: "'n Target \<Rightarrow> 'n Target \<Rightarrow> bool" where
  "same_as a b = (address a = address b)"

text \<open>The thread-local entry; the head of the list is the top of \<^verbatim>\<open>std::stack\<close>.\<close>

record 'n TVMTargetThreadLocalEntry =
  context_stack :: "'n Target list"

definition EnterWithScope ::
  "'n Target \<Rightarrow> 'n TVMTargetThreadLocalEntry \<Rightarrow> 'n TVMTargetThreadLocalEntry" where
  "EnterWithScope this entry = entry\<lparr>context_stack := this # context_stack entry\<rparr>"

definition ExitWithScope ::
  "'n Target \<Rightarrow> 'n TVMTargetThreadLocalEntry \<Rightarrow> error + 'n TVMTargetThreadLocalEntry" where
  "ExitWithScope this entry =
     (if context_stack entry = [] then Inl InternalError
      else if \<not> same_as (hd (context_stack entry)) this then Inl InternalError
      else Inr (entry\<lparr>context_stack := tl (context_stack entry)\<rparr>))"

section \<open>The specification's reading of the quoting rules\<close>

text \<open>
  The specification's wording for \<^verbatim>\<open>IsFullyQuoted\<close>: an escape character makes
  exactly the next character escaped. \<open>spec_escaped_at m i\<close> says that the character at
  index \<open>i\<close> of \<open>m\<close> is escaped when \<open>m\<close> is read from its start.
\<close>

fun spec_escaped_at :: "string \<Rightarrow> nat \<Rightarrow> bool" where
  "spec_escaped_at m 0 = False"
| "spec_escaped_at m (Suc i) = (m ! i = escape \<and> \<not> spec_escaped_at m i)"

definition interior :: "string \<Rightarrow> string" where
  "interior s = take (length s - 2) (drop 1 s)"

text \<open>
  The specification's three conditions, as it words them: length at least 2, first and
  last character a quote, no unescaped quote in the interior.
\<close>

definition spec_IsFullyQuoted :: "string \<Rightarrow> bool" where
  "spec_IsFullyQuoted s =
     (2 \<le> length s \<and> s ! 0 = quote \<and> s ! (length s - 1) = quote \<and>
      (\<forall>i < length (interior s). interior s ! i = quote \<longrightarrow> spec_escaped_at (interior s) i))"

text \<open>The same reading of escapes, started in a given state (used in the proofs).\<close>

fun escaped_from :: "bool \<Rightarrow> string \<Rightarrow> nat \<Rightarrow> bool" where
  "escaped_from e m 0 = e"
| "escaped_from e m (Suc i) = (m ! i = escape \<and> \<not> escaped_from e m i)"

text \<open>
  The specification's wording for \<^verbatim>\<open>SplitString\<close>, in three passes. First the input
  is cut into units: an escape character together with the character after it, or a
  single character. Then the units are grouped into tokens, cutting at every unit that is
  the separator outside a quoted region; a quote unit toggles the region and is kept.
  Last, empty tokens are dropped. An input that ends inside a quoted region is fatal.
\<close>

fun spec_units :: "string \<Rightarrow> string list" where
  "spec_units [] = []"
| "spec_units [c] = [c] # []"
| "spec_units (c # d # cs) =
     (if c = escape then [c, d] # spec_units cs else [c] # spec_units (d # cs))"

fun spec_tokens :: "char \<Rightarrow> string list \<Rightarrow> bool \<Rightarrow> string \<Rightarrow> string list" where
  "spec_tokens sep [] quoted w = [w]"
| "spec_tokens sep (u # us) quoted w =
     (if u = [sep] \<and> \<not> quoted then w # spec_tokens sep us quoted []
      else if u = [quote] then spec_tokens sep us (\<not> quoted) (w @ u)
      else spec_tokens sep us quoted (w @ u))"

fun spec_quoted_at_end :: "char \<Rightarrow> string list \<Rightarrow> bool \<Rightarrow> bool" where
  "spec_quoted_at_end sep [] quoted = quoted"
| "spec_quoted_at_end sep (u # us) quoted =
     (if u = [sep] \<and> \<not> quoted then spec_quoted_at_end sep us quoted
      else if u = [quote] then spec_quoted_at_end sep us (\<not> quoted)
      else spec_quoted_at_end sep us quoted)"

definition spec_SplitString :: "string \<Rightarrow> char \<Rightarrow> error + string list" where
  "spec_SplitString s sep =
     (if spec_quoted_at_end sep (spec_units s) False then Inl InternalError
      else Inr (filter (\<lambda>t. t \<noteq> []) (spec_tokens sep (spec_units s) False [])))"

section \<open>Values, targets and the kind registry\<close>

text \<open>
  The dynamically typed values of the source (\<^verbatim>\<open>ffi::Any\<close>) as a closed variant:
  absent, bool, integer (\<^verbatim>\<open>int64_t\<close>, kept in range by the parser), string, nested
  target, array and map. A \<^verbatim>\<open>TargetNode\<close> holds its kind by the kind's name, the key
  under which the registry knows it; \<^verbatim>\<open>Map<String, Any>\<close> is an association list
  with distinct keys. The source iterates its hash maps in an order it does not fix;
  the model iterates in list order, which only decides which of several errors is
  raised first.
\<close>

datatype Any =
    ANone
  | ABool bool
  | AInt int
  | AStr string
  | ATarget TargetNode
  | AArray "Any list"
  | AMap "(Any \<times> Any) list"
and TargetNode =
  TargetNode (kind: string) (host: "TargetNode option") (tag: string) (keys: "string list")
    (attrs: "(string \<times> Any) list") (features: "(string \<times> Any) list")

type_synonym config = "(string \<times> Any) list"

definition count :: "config \<Rightarrow> string \<Rightarrow> bool" where
  "count m k = (map_of m k \<noteq> None)"

definition is_str :: "Any \<Rightarrow> bool" where
  "is_str v = (case v of AStr s \<Rightarrow> True | _ \<Rightarrow> False)"

definition the_str :: "Any \<Rightarrow> string" where
  "the_str v = (case v of AStr s \<Rightarrow> s | _ \<Rightarrow> [])"

text \<open>
  Modelled from the spec: \<^verbatim>\<open>TargetKindNode::ValueTypeInfo\<close> (its header is not among
  the sources). The specification describes a schema as a type with an element schema
  for arrays and key and value schemas for maps; \<open>VOther\<close> stands for any other type
  index, carried by none of the values above.
\<close>

datatype ValueTypeInfo =
    VInt
  | VBool
  | VStr
  | VTarget
  | VArray ValueTypeInfo
  | VMap ValueTypeInfo ValueTypeInfo
  | VOther

text \<open>
  Modelled from the spec: \<^verbatim>\<open>TargetKindNode\<close>, the entry of the kind registry: schema,
  defaults, default keys, default device type and the two optional hooks. A hook may
  raise.
\<close>

record TargetKind =
  name :: string
  default_device_type :: int
  default_keys :: "string list"
  key2vtype :: "(string \<times> ValueTypeInfo) list"
  key2default :: "(string \<times> Any) list"
  preprocessor :: "(config \<Rightarrow> error + config) option"
  target_parser :: "(config \<Rightarrow> error + config) option"

text \<open>
  Modelled from the spec: the device API consulted by \<^verbatim>\<open>QueryDevice\<close>: whether the
  device exists, and the property it reports for an attribute name.
\<close>

record DeviceAPI =
  exist :: bool
  GetTargetProperty :: "string \<Rightarrow> Any"

text \<open>
  The collaborators the source only calls: \<^verbatim>\<open>TargetKind::Get\<close>,
  \<^verbatim>\<open>TargetTag::Get\<close>, the global function \<^verbatim>\<open>target._load_config_dict\<close> (which may
  be unregistered, and may return no map) and \<^verbatim>\<open>DeviceAPI::Get\<close> by device type and
  device id.
\<close>

record registry =
  kinds :: "string \<Rightarrow> TargetKind option"
  tags :: "string \<Rightarrow> TargetNode option"
  load_config_dict :: "(string \<Rightarrow> config option) option"
  device_api :: "int \<Rightarrow> int \<Rightarrow> DeviceAPI option"

section \<open>Small helpers of target.cc\<close>

text \<open>
  \<^verbatim>\<open>DeduplicateKeys\<close>: the outer loop over \<open>i\<close>, with the keys before \<open>i\<close> in
  \<open>seen\<close>; the inner loop looks for \<open>keys[i]\<close> among them.
\<close>

fun DeduplicateKeys_loop :: "string list \<Rightarrow> string list \<Rightarrow> string list \<Rightarrow> string list" where
  "DeduplicateKeys_loop seen [] new_keys = new_keys"
| "DeduplicateKeys_loop seen (k # ks) new_keys =
     DeduplicateKeys_loop (seen @ [k]) ks (if k \<in> set seen then new_keys else new_keys @ [k])"

definition DeduplicateKeys :: "string list \<Rightarrow> string list" where
  "DeduplicateKeys key_list = DeduplicateKeys_loop [] key_list []"

definition GetTargetKind :: "registry \<Rightarrow> string \<Rightarrow> error + TargetKind" where
  "GetTargetKind env nm = (case kinds env nm of None \<Rightarrow> Inl TypeError | Some k \<Rightarrow> Inr k)"

definition RemovePrefixDashes :: "string \<Rightarrow> error + string" where
  "RemovePrefixDashes s =
     (let n_dashes = length (takeWhile (\<lambda>c. c = CHR ''-'') s) in
      if n_dashes = 0 then Inl ValueError
      else if n_dashes \<ge> length s then Inl ValueError
      else Inr (drop n_dashes s))"

definition FindTypeInfo :: "TargetKind \<Rightarrow> string \<Rightarrow> error + ValueTypeInfo" where
  "FindTypeInfo k key =
     (case map_of (key2vtype k) key of None \<Rightarrow> Inl TypeError | Some info \<Rightarrow> Inr info)"

section \<open>Numbers as text\<close>

text \<open>\<^verbatim>\<open>std::to_string\<close> of an \<^verbatim>\<open>int64_t\<close>: decimal digits, a minus sign if negative.\<close>

definition digit_char :: "nat \<Rightarrow> char" where
  "digit_char d = char_of (48 + d)"

fun to_string_nat :: "nat \<Rightarrow> string" where
  "to_string_nat n =
     (if n < 10 then [digit_char n] else to_string_nat (n div 10) @ [digit_char (n mod 10)])"

declare to_string_nat.simps [simp del]

definition to_string :: "int \<Rightarrow> string" where
  "to_string i = (if i < 0 then CHR ''-'' # to_string_nat (nat (- i)) else to_string_nat (nat i))"

text \<open>
  \<^verbatim>\<open>is >> v\<close> for an \<^verbatim>\<open>int64_t\<close>: leading white space is skipped, a sign is
  optional, at least one digit is needed, reading stops at the first character that is
  not a digit; a value outside the 64-bit range fails.
\<close>

definition isspace :: "char \<Rightarrow> bool" where
  "isspace c = (c = CHR '' '' \<or> (9 \<le> (of_char c :: nat) \<and> (of_char c :: nat) \<le> 13))"

definition isdigit :: "char \<Rightarrow> bool" where
  "isdigit c = (48 \<le> (of_char c :: nat) \<and> (of_char c :: nat) \<le> 57)"

fun read_digits :: "string \<Rightarrow> nat \<Rightarrow> nat" where
  "read_digits [] acc = acc"
| "read_digits (c # cs) acc =
     (if isdigit c then read_digits cs (acc * 10 + (of_char c - 48)) else acc)"

definition extract_int64 :: "string \<Rightarrow> int option" where
  "extract_int64 s =
     (let s1 = dropWhile isspace s;
          neg = (s1 \<noteq> [] \<and> hd s1 = CHR ''-'');
          s2 = (if s1 \<noteq> [] \<and> (hd s1 = CHR ''-'' \<or> hd s1 = CHR ''+'') then tl s1 else s1)
      in if s2 = [] \<or> \<not> isdigit (hd s2) then None
         else (let m = int (read_digits s2 0); v = (if neg then - m else m)
               in if - (2 ^ 63) \<le> v \<and> v < 2 ^ 63 then Some v else None))"

definition tolower :: "char \<Rightarrow> char" where
  "tolower c =
     (if 65 \<le> (of_char c :: nat) \<and> (of_char c :: nat) \<le> 90 then char_of ((of_char c :: nat) + 32)
      else c)"

text \<open>
  The string branch of \<^verbatim>\<open>ParseType\<close>: \<^verbatim>\<open>find_first_not_of(' ')\<close> and
  \<^verbatim>\<open>find_last_not_of(' ')\<close>, then \<^verbatim>\<open>substr\<close>; a string of spaces only gives the
  empty string.
\<close>

definition strip_spaces :: "string \<Rightarrow> string" where
  "strip_spaces s =
     (let start = length (takeWhile (\<lambda>c. c = CHR '' '') s);
          stop = length s - length (takeWhile (\<lambda>c. c = CHR '' '') (rev s))
      in if start = length s then [] else take (stop - start) (drop start s))"

text \<open>The integer and boolean branch of \<^verbatim>\<open>ParseType\<close> from a string.\<close>

definition parse_integer :: "string \<Rightarrow> error + int" where
  "parse_integer interp_str =
     (case extract_int64 interp_str of
        Some v \<Rightarrow> Inr v
      | None \<Rightarrow>
          (let lower = map tolower interp_str in
           if lower = ''true'' then Inr 1
           else if lower = ''false'' then Inr 0
           else Inl ValueError))"

section \<open>Stringifying\<close>

definition StringifyAtomicType :: "Any \<Rightarrow> error + string" where
  "StringifyAtomicType obj =
     (case obj of
        ABool b \<Rightarrow> Inr (to_string (if b then 1 else 0))
      | AInt i \<Rightarrow> Inr (to_string i)
      | AStr s \<Rightarrow>
          (let u = Uninterpret s in
           if find_first_of u (CHR '' '') \<noteq> None \<and> \<not> IsQuoted u then Inr (Quote u) else Inr u)
      | _ \<Rightarrow> Inl InternalError)"

fun StringifyArray_loop :: "Any list \<Rightarrow> string list \<Rightarrow> error + string list" where
  "StringifyArray_loop [] elements = Inr elements"
| "StringifyArray_loop (item # array) elements =
     (case StringifyAtomicType item of
        Inl e \<Rightarrow> Inl e
      | Inr s \<Rightarrow>
          (let u = Uninterpret s;
               u' = (if find_first_of u (CHR '','') \<noteq> None \<and> \<not> IsQuoted u then Quote u else u)
           in StringifyArray_loop array (elements @ [u'])))"

definition StringifyArray :: "Any list \<Rightarrow> error + string" where
  "StringifyArray array =
     (case StringifyArray_loop array [] of
        Inl e \<Rightarrow> Inl e
      | Inr elements \<Rightarrow> JoinString elements (CHR '',''))"

text \<open>
  The loop of \<^verbatim>\<open>StringifyAttrsToRaw\<close> over the sorted keys: an undefined value is
  skipped, an empty rendering is left out.
\<close>

fun StringifyAttrsToRaw_loop :: "config \<Rightarrow> string list \<Rightarrow> string list \<Rightarrow> error + string list" where
  "StringifyAttrsToRaw_loop attr_map [] result = Inr result"
| "StringifyAttrsToRaw_loop attr_map (key # key_list) result =
     (case map_of attr_map key of
        None \<Rightarrow> StringifyAttrsToRaw_loop attr_map key_list result
      | Some ANone \<Rightarrow> StringifyAttrsToRaw_loop attr_map key_list result
      | Some obj \<Rightarrow>
          (case (case obj of AArray array \<Rightarrow> StringifyArray array | _ \<Rightarrow> StringifyAtomicType obj) of
             Inl e \<Rightarrow> Inl e
           | Inr v \<Rightarrow>
               StringifyAttrsToRaw_loop attr_map key_list
                 (if v \<noteq> [] then result @ [''-'' @ key @ ''='' @ v] else result)))"

definition StringifyAttrsToRaw :: "config \<Rightarrow> error + string" where
  "StringifyAttrsToRaw attr_map =
     (case StringifyAttrsToRaw_loop attr_map (sort (map fst attr_map)) [] of
        Inl e \<Rightarrow> Inl e
      | Inr result \<Rightarrow> JoinString result (CHR '' ''))"

text \<open>
  \<^verbatim>\<open>TargetNode::str\<close>. The cache \<^verbatim>\<open>str_repr_\<close> holds the value computed here. The
  keys are written as they are, joined by commas.
\<close>

fun str_keys :: "string list \<Rightarrow> bool \<Rightarrow> string" where
  "str_keys [] is_first = []"
| "str_keys (s # ks) is_first = (if is_first then s else CHR '','' # s) @ str_keys ks False"

definition str :: "TargetNode \<Rightarrow> error + string" where
  "str t =
     (case StringifyAttrsToRaw (attrs t) of
        Inl e \<Rightarrow> Inl e
      | Inr attrs_str \<Rightarrow>
          Inr (kind t @ (if keys t \<noteq> [] then '' -keys='' @ str_keys (keys t) True else [])
               @ '' '' @ attrs_str))"

section \<open>Parsing and assembling\<close>

text \<open>
  The constructors call one another without bound (a hook of a kind may hand back any
  configuration, a host included), so the functions of this section take fuel: the
  result \<open>None\<close> says the fuel ran out, \<open>Some (Inl e)\<close> that the source raised \<open>e\<close>,
  \<open>Some (Inr v)\<close> that it returned \<open>v\<close>. Re-raising an error with a longer message keeps
  its kind and is the identity here.
\<close>

definition bind_res ::
  "(error + 'a) option \<Rightarrow> ('a \<Rightarrow> (error + 'b) option) \<Rightarrow> (error + 'b) option" where
  "bind_res m f = (case m of None \<Rightarrow> None | Some (Inl e) \<Rightarrow> Some (Inl e) | Some (Inr x) \<Rightarrow> f x)"

fun mapM_res :: "('a \<Rightarrow> (error + 'b) option) \<Rightarrow> 'a list \<Rightarrow> (error + 'b list) option" where
  "mapM_res f [] = Some (Inr [])"
| "mapM_res f (x # xs) =
     bind_res (f x) (\<lambda>y. bind_res (mapM_res f xs) (\<lambda>ys. Some (Inr (y # ys))))"

text \<open>
  The loop of \<^verbatim>\<open>FromRawString\<close> over the tokens after the kind name; \<open>parse\<close> is
  the call \<^verbatim>\<open>ParseType(value, FindTypeInfo(kind, key))\<close>. The key is new when it is
  stored, so it goes to the end of the configuration.
\<close>

fun FromRawString_loop ::
  "(string \<Rightarrow> string \<Rightarrow> (error + Any) option) \<Rightarrow> string list \<Rightarrow> config \<Rightarrow> (error + config) option" where
  "FromRawString_loop parse [] cfg = Some (Inr cfg)"
| "FromRawString_loop parse (opt # rest) cfg =
     (let s_next = (case rest of [] \<Rightarrow> [] | nxt # _ \<Rightarrow> nxt) in
      case RemovePrefixDashes opt of
        Inl e \<Rightarrow> Some (Inl e)
      | Inr s \<Rightarrow>
          (case ParseKVPair s s_next of
             Inl e \<Rightarrow> Some (Inl e)
           | Inr (n, key, val) \<Rightarrow>
               if count cfg key then Some (Inl ValueError)
               else bind_res (parse key val)
                      (\<lambda>v. FromRawString_loop parse (drop (n - 1) rest) (cfg @ [(key, v)]))))"

text \<open>The parts of \<^verbatim>\<open>FromConfig\<close> that call nothing recursive, in the source's order.\<close>

definition FromConfig_kind ::
  "registry \<Rightarrow> config \<Rightarrow> error + (TargetKind \<times> config \<times> config)" where
  "FromConfig_kind env cfg =
     (case map_of cfg ''kind'' of
        None \<Rightarrow> Inl ValueError
      | Some (AStr nm) \<Rightarrow>
          (case GetTargetKind env nm of
             Inl e \<Rightarrow> Inl e
           | Inr k \<Rightarrow>
               if preprocessor k \<noteq> None \<and> target_parser k \<noteq> None then Inl InternalError
               else
                 (case target_parser k of
                    None \<Rightarrow> Inr (k, [], AList.delete ''kind'' cfg)
                  | Some parser \<Rightarrow>
                      (case parser cfg of
                         Inl e \<Rightarrow> Inl e
                       | Inr cfg' \<Rightarrow>
                           (case map_of cfg' ''features'' of
                              None \<Rightarrow> Inr (k, [], AList.delete ''kind'' cfg')
                            | Some (AMap m) \<Rightarrow>
                                if list_all (\<lambda>kv. is_str (fst kv)) m
                                then Inr (k, map (\<lambda>kv. (the_str (fst kv), snd kv)) m,
                                          AList.delete ''kind'' (AList.delete ''features'' cfg'))
                                else Inl TypeError
                            | Some _ \<Rightarrow> Inl TypeError))))
      | Some _ \<Rightarrow> Inl TypeError)"

definition FromConfig_tag :: "config \<Rightarrow> error + (string \<times> config)" where
  "FromConfig_tag cfg =
     (case map_of cfg ''tag'' of
        None \<Rightarrow> Inr ([], cfg)
      | Some (AStr t) \<Rightarrow> Inr (t, AList.delete ''tag'' cfg)
      | Some _ \<Rightarrow> Inl TypeError)"

definition FromConfig_keys :: "TargetKind \<Rightarrow> config \<Rightarrow> error + (string list \<times> config)" where
  "FromConfig_keys k cfg =
     (let has_user_keys = count cfg ''keys'';
          user_keys =
            (case map_of cfg ''keys'' of
               None \<Rightarrow> Inr []
             | Some (AArray cfg_keys) \<Rightarrow>
                 if list_all is_str cfg_keys then Inr (map the_str cfg_keys) else Inl TypeError
             | Some _ \<Rightarrow> Inl TypeError);
          device = (case map_of cfg ''device'' of Some (AStr d) \<Rightarrow> [d] | _ \<Rightarrow> [])
      in case user_keys of
           Inl e \<Rightarrow> Inl e
         | Inr ks \<Rightarrow>
             Inr (DeduplicateKeys (ks @ device @ (if \<not> has_user_keys then default_keys k else [])),
                  AList.delete ''keys'' cfg))"

text \<open>
  \<^verbatim>\<open>QueryDevice\<close>. The target's attributes are not yet set when it is called, so
  the device type is the kind's default.
\<close>

definition QueryDevice :: "registry \<Rightarrow> int \<Rightarrow> TargetKind \<Rightarrow> error + config" where
  "QueryDevice env device_id k =
     (case device_api env (default_device_type k) device_id of
        None \<Rightarrow> Inr []
      | Some api \<Rightarrow>
          if \<not> exist api then Inl InternalError
          else Inr (map (\<lambda>kv. (fst kv, GetTargetProperty api (fst kv))) (key2vtype k)))"

definition set_if_absent :: "config \<Rightarrow> string \<times> Any \<Rightarrow> config" where
  "set_if_absent m kv = (if count m (fst kv) then m else m @ [kv])"

text \<open>
  The end of \<^verbatim>\<open>FromConfig\<close>: \<^verbatim>\<open>from_device\<close> (the device id is narrowed to a
  32-bit \<^verbatim>\<open>int\<close>), the defaults, the preprocessor, and the node.
\<close>

definition FromConfig_finish ::
  "registry \<Rightarrow> TargetKind \<Rightarrow> config \<Rightarrow> string \<Rightarrow> string list \<Rightarrow> TargetNode option \<Rightarrow> config
     \<Rightarrow> error + TargetNode" where
  "FromConfig_finish env k feats tg ks hst parsed =
     (let queried =
            (case map_of parsed ''from_device'' of
               None \<Rightarrow> Inr parsed
             | Some (AInt i) \<Rightarrow>
                 (let device_id = (i + 2 ^ 31) mod 2 ^ 32 - 2 ^ 31 in
                  case QueryDevice env device_id k of
                    Inl e \<Rightarrow> Inl e
                  | Inr device_params \<Rightarrow>
                      Inr (foldl set_if_absent (AList.delete ''from_device'' parsed) device_params))
             | Some _ \<Rightarrow> Inl TypeError)
      in case queried of
           Inl e \<Rightarrow> Inl e
         | Inr a \<Rightarrow>
             (let with_defaults = foldl set_if_absent a (key2default k) in
              case preprocessor k of
                None \<Rightarrow> Inr (TargetNode (name k) hst tg ks with_defaults feats)
              | Some f \<Rightarrow>
                  (case f with_defaults of
                     Inl e \<Rightarrow> Inl e
                   | Inr a' \<Rightarrow> Inr (TargetNode (name k) hst tg ks a' feats))))"

text \<open>
  \<^verbatim>\<open>ParseType\<close> from a string. \<open>from_string\<close> is the call
  \<^verbatim>\<open>TargetInternal::FromString\<close>; the recursion into the elements of an array
  follows the schema. The \<^verbatim>\<open>cast<ObjectRef>\<close> of a parsed element is taken to
  succeed.
\<close>

fun ParseType_str ::
  "(string \<Rightarrow> (error + TargetNode) option) \<Rightarrow> string \<Rightarrow> ValueTypeInfo \<Rightarrow> (error + Any) option" where
  "ParseType_str from_string s VInt =
     (case parse_integer (Interpret s) of
        Inl e \<Rightarrow> Some (Inl e)
      | Inr v \<Rightarrow> Some (Inr (AInt v)))"
| "ParseType_str from_string s VBool =
     (case parse_integer (Interpret s) of
        Inl e \<Rightarrow> Some (Inl e)
      | Inr v \<Rightarrow> Some (Inr (ABool (v \<noteq> 0))))"
| "ParseType_str from_string s VStr = Some (Inr (AStr (strip_spaces (Interpret s))))"
| "ParseType_str from_string s VTarget =
     bind_res (from_string (Interpret s)) (\<lambda>t. Some (Inr (ATarget t)))"
| "ParseType_str from_string s (VArray elem) =
     (case SplitString (Interpret s) (CHR '','') of
        Inl e \<Rightarrow> Some (Inl e)
      | Inr substrs \<Rightarrow>
          bind_res (mapM_res (\<lambda>substr. ParseType_str from_string substr elem) substrs)
            (\<lambda>result. Some (Inr (AArray result))))"
| "ParseType_str from_string s (VMap kinfo vinfo) = Some (Inl TypeError)"
| "ParseType_str from_string s VOther = Some (Inl TypeError)"

text \<open>
  \<^verbatim>\<open>ParseType\<close> from a value. \<open>from_string\<close> and \<open>from_config\<close> are the calls
  \<^verbatim>\<open>TargetInternal::FromString\<close> and \<^verbatim>\<open>TargetInternal::FromConfig\<close>. The casts
  of the value library (\<^verbatim>\<open>try_cast\<close>, \<^verbatim>\<open>as\<close>) are not among the sources; as the
  specification has it, a scalar must carry exactly the type of the schema
  (\<^verbatim>\<open>ObjTypeCheck\<close>), with no coercion.
\<close>

definition ParseType_target ::
  "(string \<Rightarrow> (error + TargetNode) option) \<Rightarrow> (config \<Rightarrow> (error + TargetNode) option) \<Rightarrow> Any
     \<Rightarrow> (error + Any) option" where
  "ParseType_target from_string from_config obj =
     (case obj of
        ATarget t \<Rightarrow> Some (Inr obj)
      | AStr s \<Rightarrow> bind_res (from_string s) (\<lambda>t. Some (Inr (ATarget t)))
      | AMap m \<Rightarrow>
          if \<not> list_all (\<lambda>kv. is_str (fst kv)) m then Some (Inl TypeError)
          else bind_res (from_config (map (\<lambda>kv. (the_str (fst kv), snd kv)) m))
                 (\<lambda>t. Some (Inr (ATarget t)))
      | _ \<Rightarrow> Some (Inl TypeError))"

fun ParseType_any ::
  "(string \<Rightarrow> (error + TargetNode) option) \<Rightarrow> (config \<Rightarrow> (error + TargetNode) option) \<Rightarrow> Any
     \<Rightarrow> ValueTypeInfo \<Rightarrow> (error + Any) option" where
  "ParseType_any from_string from_config obj VInt =
     (case obj of AInt i \<Rightarrow> Some (Inr obj) | _ \<Rightarrow> Some (Inl TypeError))"
| "ParseType_any from_string from_config obj VBool =
     (case obj of ABool b \<Rightarrow> Some (Inr obj) | _ \<Rightarrow> Some (Inl TypeError))"
| "ParseType_any from_string from_config obj VStr =
     (case obj of AStr s \<Rightarrow> Some (Inr obj) | _ \<Rightarrow> Some (Inl TypeError))"
| "ParseType_any from_string from_config obj VTarget =
     ParseType_target from_string from_config obj"
| "ParseType_any from_string from_config obj (VArray elem) =
     (case obj of
        AArray array \<Rightarrow>
          bind_res (mapM_res (\<lambda>e. ParseType_any from_string from_config e elem) array)
            (\<lambda>result. Some (Inr (AArray result)))
      | _ \<Rightarrow> Some (Inl TypeError))"
| "ParseType_any from_string from_config obj (VMap kinfo vinfo) =
     (case obj of
        AMap m \<Rightarrow>
          bind_res
            (mapM_res
               (\<lambda>kv.
                  bind_res (ParseType_any from_string from_config (fst kv) kinfo)
                    (\<lambda>key. bind_res (ParseType_any from_string from_config (snd kv) vinfo)
                             (\<lambda>val. Some (Inr (key, val)))))
               m)
            (\<lambda>result.
               Some (Inr (AMap (foldl (\<lambda>r kv. AList.update (fst kv) (snd kv) r) [] result))))
      | _ \<Rightarrow> Some (Inl TypeError))"
| "ParseType_any from_string from_config obj VOther = Some (Inl TypeError)"

text \<open>
  The bodies of the constructors, each over the calls it makes: \<open>from_string\<close>,
  \<open>from_config\<close>, \<open>from_raw_string\<close>, \<open>from_config_string\<close> and \<open>dispatch\<close> stand for
  \<^verbatim>\<open>FromString\<close>, \<^verbatim>\<open>FromConfig\<close>, \<^verbatim>\<open>FromRawString\<close>, \<^verbatim>\<open>FromConfigString\<close> and
  \<^verbatim>\<open>ConstructorDispatcher\<close>.
\<close>

definition FromString_body ::
  "registry \<Rightarrow> (string \<Rightarrow> (error + TargetNode) option) \<Rightarrow> (string \<Rightarrow> (error + TargetNode) option)
     \<Rightarrow> string \<Rightarrow> (error + TargetNode) option" where
  "FromString_body env from_config_string from_raw_string s =
     (case tags env s of
        Some t \<Rightarrow> Some (Inr t)
      | None \<Rightarrow>
          if s \<noteq> [] \<and> s ! 0 = CHR ''{'' then from_config_string s
          else from_raw_string s)"

definition FromConfigString_body ::
  "registry \<Rightarrow> (config \<Rightarrow> (error + TargetNode) option) \<Rightarrow> string \<Rightarrow> (error + TargetNode) option" where
  "FromConfigString_body env from_config config_str =
     (case load_config_dict env of
        None \<Rightarrow> Some (Inl InternalError)
      | Some loader \<Rightarrow>
          (case loader config_str of
             None \<Rightarrow> Some (Inl ValueError)
           | Some cfg \<Rightarrow> from_config cfg))"

text \<open>
  \<^verbatim>\<open>FromRawString\<close>. Reading \<^verbatim>\<open>options[0]\<close> when the string holds no token (spaces
  only) is undefined in the source; the model makes it fatal.
\<close>

definition FromRawString_body ::
  "registry \<Rightarrow> (string \<Rightarrow> (error + TargetNode) option) \<Rightarrow> (config \<Rightarrow> (error + TargetNode) option)
     \<Rightarrow> string \<Rightarrow> (error + TargetNode) option" where
  "FromRawString_body env from_string from_config target_str =
     (if length target_str = 0 then Some (Inl InternalError)
      else
        case SplitString target_str (CHR '' '') of
          Inl e \<Rightarrow> Some (Inl e)
        | Inr [] \<Rightarrow> Some (Inl InternalError)
        | Inr (nm # rest) \<Rightarrow>
            (case GetTargetKind env nm of
               Inl e \<Rightarrow> Some (Inl e)
             | Inr k \<Rightarrow>
                 bind_res
                   (FromRawString_loop
                      (\<lambda>key val.
                         case FindTypeInfo k key of
                           Inl e \<Rightarrow> Some (Inl e)
                         | Inr info \<Rightarrow> ParseType_str from_string val info)
                      rest [(''kind'', AStr nm)])
                   from_config))"

definition FromConfig_attr ::
  "(string \<Rightarrow> (error + TargetNode) option) \<Rightarrow> (config \<Rightarrow> (error + TargetNode) option) \<Rightarrow> TargetKind
     \<Rightarrow> string \<times> Any \<Rightarrow> (error + string \<times> Any) option" where
  "FromConfig_attr from_string from_config k kv =
     (case FindTypeInfo k (fst kv) of
        Inl e \<Rightarrow> Some (Inl e)
      | Inr info \<Rightarrow>
          bind_res (ParseType_any from_string from_config (snd kv) info)
            (\<lambda>v. Some (Inr (fst kv, v))))"

definition FromConfig_body ::
  "registry \<Rightarrow> (string \<Rightarrow> (error + TargetNode) option) \<Rightarrow> (config \<Rightarrow> (error + TargetNode) option)
     \<Rightarrow> (Any list \<Rightarrow> (error + TargetNode) option) \<Rightarrow> config \<Rightarrow> (error + TargetNode) option" where
  "FromConfig_body env from_string from_config dispatch cfg =
     (if count cfg ''features'' then Some (Inl InternalError)
      else
        case FromConfig_kind env cfg of
          Inl e \<Rightarrow> Some (Inl e)
        | Inr (k, feats, cfg1) \<Rightarrow>
            (case FromConfig_tag cfg1 of
               Inl e \<Rightarrow> Some (Inl e)
             | Inr (tg, cfg2) \<Rightarrow>
                 (case FromConfig_keys k cfg2 of
                    Inl e \<Rightarrow> Some (Inl e)
                  | Inr (ks, cfg3) \<Rightarrow>
                      bind_res
                        (case map_of cfg3 ''host'' of
                           None \<Rightarrow> Some (Inr None)
                         | Some h \<Rightarrow> bind_res (dispatch [h]) (\<lambda>t. Some (Inr (Some t))))
                        (\<lambda>hst.
                           bind_res
                             (mapM_res (FromConfig_attr from_string from_config k)
                                (AList.delete ''host'' cfg3))
                             (\<lambda>parsed. Some (FromConfig_finish env k feats tg ks hst parsed))))))"

text \<open>The two public constructors from a string and from a map: any error becomes a ValueError.\<close>

definition as_ValueError :: "(error + TargetNode) option \<Rightarrow> (error + TargetNode) option" where
  "as_ValueError r =
     (case r of None \<Rightarrow> None | Some (Inl e) \<Rightarrow> Some (Inl ValueError) | Some (Inr t) \<Rightarrow> Some (Inr t))"

definition ConstructorDispatcher_body ::
  "(string \<Rightarrow> (error + TargetNode) option) \<Rightarrow> (config \<Rightarrow> (error + TargetNode) option) \<Rightarrow> Any list
     \<Rightarrow> (error + TargetNode) option" where
  "ConstructorDispatcher_body from_string from_config args =
     (case args of
        [arg] \<Rightarrow>
          (case arg of
             ATarget t \<Rightarrow> Some (Inr t)
           | AStr s \<Rightarrow> as_ValueError (from_string s)
           | AMap m \<Rightarrow>
               if \<not> list_all (\<lambda>kv. is_str (fst kv)) m then Some (Inl InternalError)
               else as_ValueError (from_config (map (\<lambda>kv. (the_str (fst kv), snd kv)) m))
           | _ \<Rightarrow> Some (Inl InternalError))
      | [a, b] \<Rightarrow>
          (case a of
             ATarget target \<Rightarrow>
               (case b of
                  ATarget target_host \<Rightarrow>
                    Some (Inr (TargetNode (kind target) (Some target_host) (tag target)
                                 (keys target) (attrs target) (features target)))
                | _ \<Rightarrow> Some (Inl InternalError))
           | _ \<Rightarrow> Some (Inl InternalError))
      | _ \<Rightarrow> Some (Inl InternalError))"

text \<open>
  The constructors themselves, tied together over the fuel: every call from one
  constructor to another spends one unit. \<open>construct\<close> runs one call; the five
  constructors are its instances.
\<close>

datatype call =
    CallFromString string
  | CallFromConfigString string
  | CallFromRawString string
  | CallFromConfig config
  | CallConstructorDispatcher "Any list"

primrec construct :: "nat \<Rightarrow> registry \<Rightarrow> call \<Rightarrow> (error + TargetNode) option" where
  "construct 0 env c = None"
| "construct (Suc n) env c =
     (case c of
        CallFromString s \<Rightarrow>
          FromString_body env (\<lambda>x. construct n env (CallFromConfigString x))
            (\<lambda>x. construct n env (CallFromRawString x)) s
      | CallFromConfigString s \<Rightarrow>
          FromConfigString_body env (\<lambda>x. construct n env (CallFromConfig x)) s
      | CallFromRawString s \<Rightarrow>
          FromRawString_body env (\<lambda>x. construct n env (CallFromString x))
            (\<lambda>x. construct n env (CallFromConfig x)) s
      | CallFromConfig cfg \<Rightarrow>
          FromConfig_body env (\<lambda>x. construct n env (CallFromString x))
            (\<lambda>x. construct n env (CallFromConfig x))
            (\<lambda>x. construct n env (CallConstructorDispatcher x)) cfg
      | CallConstructorDispatcher args \<Rightarrow>
          ConstructorDispatcher_body (\<lambda>x. construct n env (CallFromString x))
            (\<lambda>x. construct n env (CallFromConfig x)) args)"

definition FromString :: "nat \<Rightarrow> registry \<Rightarrow> string \<Rightarrow> (error + TargetNode) option" where
  "FromString n env s = construct n env (CallFromString s)"

definition FromConfigString :: "nat \<Rightarrow> registry \<Rightarrow> string \<Rightarrow> (error + TargetNode) option" where
  "FromConfigString n env s = construct n env (CallFromConfigString s)"

definition FromRawString :: "nat \<Rightarrow> registry \<Rightarrow> string \<Rightarrow> (error + TargetNode) option" where
  "FromRawString n env s = construct n env (CallFromRawString s)"

definition FromConfig :: "nat \<Rightarrow> registry \<Rightarrow> config \<Rightarrow> (error + TargetNode) option" where
  "FromConfig n env cfg = construct n env (CallFromConfig cfg)"

definition ConstructorDispatcher :: "nat \<Rightarrow> registry \<Rightarrow> Any list \<Rightarrow> (error + TargetNode) option" where
  "ConstructorDispatcher n env args = construct n env (CallConstructorDispatcher args)"

definition Target_from_string :: "nat \<Rightarrow> registry \<Rightarrow> string \<Rightarrow> (error + TargetNode) option" where
  "Target_from_string n env s = as_ValueError (FromString n env s)"

definition Target_from_config :: "nat \<Rightarrow> registry \<Rightarrow> config \<Rightarrow> (error + TargetNode) option" where
  "Target_from_config n env cfg = as_ValueError (FromConfig n env cfg)"

section \<open>Key resolution as the specification words it\<close>

text \<open>Removing duplicates, the first occurrence of each key staying where it is.\<close>

fun spec_dedup :: "string list \<Rightarrow> string list" where
  "spec_dedup [] = []"
| "spec_dedup (x # xs) = x # spec_dedup (filter (\<lambda>y. y \<noteq> x) xs)"

text \<open>The device name, when the configuration has a string under \<^verbatim>\<open>device\<close>.\<close>

definition device_key :: "config \<Rightarrow> string list" where
  "device_key cfg = (case map_of cfg ''device'' of Some (AStr d) \<Rightarrow> [d] | _ \<Rightarrow> [])"

text \<open>
  The specification's wording: the explicit keys if given, else the kind's default keys;
  in both cases the device name appended; then duplicates removed.
\<close>

definition spec_resolve_keys :: "TargetKind \<Rightarrow> config \<Rightarrow> string list" where
  "spec_resolve_keys k cfg =
     spec_dedup ((case map_of cfg ''keys'' of
                    Some (AArray ks) \<Rightarrow> map the_str ks
                  | _ \<Rightarrow> default_keys k) @ device_key cfg)"

text \<open>
  What the source computes: the device name comes after explicit keys, and before the
  default keys.
\<close>

definition resolve_keys :: "TargetKind \<Rightarrow> config \<Rightarrow> string list" where
  "resolve_keys k cfg =
     spec_dedup (case map_of cfg ''keys'' of
                    Some (AArray ks) \<Rightarrow> map the_str ks @ device_key cfg
                  | _ \<Rightarrow> device_key cfg @ default_keys k)"

text \<open>
  The configuration the keys are read from: the caller's, or the one the kind's
  \<^verbatim>\<open>target_parser\<close> hook returned for it.
\<close>

definition parsed_config :: "TargetKind \<Rightarrow> config \<Rightarrow> config \<Rightarrow> bool" where
  "parsed_config k cfg cfg' =
     (case target_parser k of None \<Rightarrow> cfg' = cfg | Some parser \<Rightarrow> parser cfg = Inr cfg')"

section \<open>An example registry\<close>

text \<open>
  A registry with one kind, used for the concrete instances below: a kind \<open>llvm\<close> with
  the default key \<open>cpu\<close>, no hooks and no defaults.
\<close>

definition example_kind :: TargetKind where
  "example_kind =
     \<lparr>name = ''llvm'', default_device_type = 1, default_keys = [''cpu''],
      key2vtype = [(''mcpu'', VStr), (''mattr'', VArray VStr), (''opt-level'', VInt),
                   (''fast-math'', VBool), (''keys'', VArray VStr), (''tag'', VStr),
                   (''device'', VStr), (''model'', VStr), (''libs'', VArray VStr),
                   (''host'', VTarget), (''from_device'', VInt)],
      key2default = [], preprocessor = None, target_parser = None\<rparr>"

definition example_registry :: registry where
  "example_registry =
     \<lparr>kinds = (\<lambda>nm. if nm = ''llvm'' then Some example_kind else None),
      tags = (\<lambda>nm. None), load_config_dict = None, device_api = (\<lambda>ty dev. None)\<rparr>"

text \<open>
  A second registry, with one kind that has a \<^verbatim>\<open>target_parser\<close> hook: the hook
  returns the configuration it is given and adds a feature.
\<close>

definition hooked_kind :: TargetKind where
  "hooked_kind =
     example_kind
       \<lparr>name := ''hooked'',
        target_parser :=
          Some (\<lambda>cfg. Inr (cfg @ [(''features'', AMap [(AStr ''has_x'', ABool True)])]))\<rparr>"

definition hooked_registry :: registry where
  "hooked_registry =
     \<lparr>kinds = (\<lambda>nm. if nm = ''hooked'' then Some hooked_kind else None),
      tags = (\<lambda>nm. None), load_config_dict = None, device_api = (\<lambda>ty dev. None)\<rparr>"

section \<open>Canonical targets\<close>

text \<open>
  The targets whose canonical string is shown to parse back. The first notion says
  that the splitter, started in the given quoting state, copies a string whole to the
  current word and ends outside a quoted region: no separator outside quotes, no escape
  left without the character it escapes, quotes balanced.
\<close>

fun token_scan :: "char \<Rightarrow> string \<Rightarrow> bool \<Rightarrow> bool" where
  "token_scan sep [] q = (\<not> q)"
| "token_scan sep (c # cs) q =
     (if c = sep \<and> \<not> q then False
      else if c = escape then cs \<noteq> [] \<and> token_scan sep (tl cs) q
      else if c = quote then token_scan sep cs (\<not> q)
      else token_scan sep cs q)"

text \<open>
  What \<^verbatim>\<open>StringifyAttrsToRaw\<close> makes of one attribute value. A value is silent when
  it leaves no flag in the string: it is undefined, or its text is empty.
\<close>

definition rendered :: "Any \<Rightarrow> error + string" where
  "rendered v = (case v of AArray array \<Rightarrow> StringifyArray array | _ \<Rightarrow> StringifyAtomicType v)"

definition silent :: "Any \<Rightarrow> bool" where
  "silent v = (v = ANone \<or> rendered v = Inr [])"

definition render :: "Any \<Rightarrow> string" where
  "render v = (case rendered v of Inl e \<Rightarrow> [] | Inr r \<Rightarrow> r)"

definition flag :: "string \<times> Any \<Rightarrow> string" where
  "flag kv = ''-'' @ fst kv @ ''='' @ render (snd kv)"

text \<open>
  The attributes in the order of the sorted keys, and those of them that are written
  to the string.
\<close>

definition sorted_attrs :: "config \<Rightarrow> config" where
  "sorted_attrs a = map (\<lambda>key. (key, the (map_of a key))) (sort (map fst a))"

definition written :: "config \<Rightarrow> config" where
  "written a = filter (\<lambda>kv. \<not> silent (snd kv)) (sorted_attrs a)"

text \<open>The names \<^verbatim>\<open>FromConfig\<close> reads itself; none of them can be a written attribute.\<close>

definition reserved_keys :: "string list" where
  "reserved_keys = [''kind'', ''tag'', ''keys'', ''host'', ''features'', ''from_device'']"

text \<open>
  A written attribute reads back when its name can stand in a flag (not empty, no
  leading dash, no \<open>=\<close>, not reserved), its text is not empty, the splitter keeps the
  flag \<open>-name=text\<close> as one token, and \<^verbatim>\<open>ParseType\<close> with the schema of the name
  makes the value of the text again. Only the schema of a nested target calls back into
  \<^verbatim>\<open>FromString\<close>, and the stringifier writes no nested target; the callback given
  here answers nothing.
\<close>

definition reads_back :: "TargetKind \<Rightarrow> string \<times> Any \<Rightarrow> bool" where
  "reads_back k kv =
     (fst kv \<noteq> [] \<and> hd (fst kv) \<noteq> CHR ''-'' \<and> CHR ''='' \<notin> set (fst kv) \<and>
      fst kv \<notin> set reserved_keys \<and>
      (case rendered (snd kv) of
         Inl e \<Rightarrow> False
       | Inr r \<Rightarrow>
           r \<noteq> [] \<and> token_scan (CHR '' '') (''-'' @ fst kv @ ''='' @ r) False \<and>
           (case map_of (key2vtype k) (fst kv) of
              None \<Rightarrow> False
            | Some info \<Rightarrow> ParseType_str (\<lambda>s. None) r info = Some (Inr (snd kv)))))"

text \<open>
  An attribute survives the trip when it reads back, or when it is silent and is the
  kind's default for its name (the parser then puts it back).
\<close>

definition attr_ok :: "TargetKind \<Rightarrow> string \<times> Any \<Rightarrow> bool" where
  "attr_ok k kv =
     (if silent (snd kv) then map_of (key2default k) (fst kv) = Some (snd kv)
      else reads_back k kv)"

text \<open>
  The keys survive when they are distinct and either there are none and the kind has
  no default keys, or the flag \<open>-keys=\<close> followed by the keys joined by commas is one
  token that \<^verbatim>\<open>ParseType\<close>, with the schema of \<open>keys\<close>, reads back as the same keys.
\<close>

definition keys_ok :: "TargetKind \<Rightarrow> string list \<Rightarrow> bool" where
  "keys_ok k ks =
     (distinct ks \<and>
      (if ks = [] then default_keys k = []
       else str_keys ks True \<noteq> [] \<and>
            token_scan (CHR '' '') (''-keys='' @ str_keys ks True) False \<and>
            (case map_of (key2vtype k) ''keys'' of
               None \<Rightarrow> False
             | Some info \<Rightarrow>
                 ParseType_str (\<lambda>s. None) (str_keys ks True) info
                   = Some (Inr (AArray (map AStr ks))))))"

text \<open>A kind name that is one token, and is not taken for a structured literal.\<close>

definition kind_name :: "string \<Rightarrow> bool" where
  "kind_name nm = (nm \<noteq> [] \<and> hd nm \<noteq> CHR ''{'' \<and> token_scan (CHR '' '') nm False)"

text \<open>
  The configuration that parsing the string of a target hands to \<^verbatim>\<open>FromConfig\<close>,
  and the attributes \<^verbatim>\<open>FromConfig\<close> has after filling in the defaults.
\<close>

definition keys_entry :: "string list \<Rightarrow> config" where
  "keys_entry ks = (if ks = [] then [] else [(''keys'', AArray (map AStr ks))])"

definition reparsed_config :: "TargetNode \<Rightarrow> config" where
  "reparsed_config t = (''kind'', AStr (kind t)) # keys_entry (keys t) @ written (attrs t)"

definition reparsed_attrs :: "TargetKind \<Rightarrow> TargetNode \<Rightarrow> config" where
  "reparsed_attrs k t = foldl set_if_absent (written (attrs t)) (key2default k)"

text \<open>Two association lists that are the same map, said over their entries.\<close>

definition same_map :: "config \<Rightarrow> config \<Rightarrow> bool" where
  "same_map a b = list_all (\<lambda>kv. map_of a (fst kv) = map_of b (fst kv)) (a @ b)"

text \<open>
  The hooks of the kind leave the trip alone: the kind does not have both; a
  \<^verbatim>\<open>target_parser\<close> returns the reparsed configuration as it is, but for an entry
  \<open>features\<close> it may add (a map with string keys); a preprocessor returns, for the
  reparsed attributes, the attributes of the target.
\<close>

definition hooks_ok :: "TargetKind \<Rightarrow> TargetNode \<Rightarrow> bool" where
  "hooks_ok k t =
     (\<not> (preprocessor k \<noteq> None \<and> target_parser k \<noteq> None) \<and>
      (case target_parser k of
         None \<Rightarrow> True
       | Some parser \<Rightarrow>
           (case parser (reparsed_config t) of
              Inl e \<Rightarrow> False
            | Inr cfg' \<Rightarrow>
                AList.delete ''features'' cfg' = reparsed_config t \<and>
                (case map_of cfg' ''features'' of
                   None \<Rightarrow> True
                 | Some (AMap m) \<Rightarrow> list_all (\<lambda>kv. is_str (fst kv)) m
                 | Some _ \<Rightarrow> False))) \<and>
      (case preprocessor k of
         None \<Rightarrow> True
       | Some f \<Rightarrow>
           (case f (reparsed_attrs k t) of
              Inl e \<Rightarrow> False
            | Inr a' \<Rightarrow> same_map a' (attrs t))))"

text \<open>Same kind, tag, keys, attributes and host.\<close>

definition observationally_equal :: "TargetNode \<Rightarrow> TargetNode \<Rightarrow> bool" where
  "observationally_equal t t' =
     (kind t = kind t' \<and> tag t = tag t' \<and> keys t = keys t' \<and>
      map_of (attrs t) = map_of (attrs t') \<and> host t = host t')"

text \<open>
  A canonical target. Its string exists. Either the string is the name of a registered
  tag whose target is observationally equal to it; or the string is no tag and: the
  kind is registered under its name, which is one token; the hooks leave the trip
  alone; the target has no host and no tag; its keys survive; the device name of a
  written attribute \<open>device\<close> is among the keys; its attributes have distinct names
  and each survives; and every default of the kind is among them.
\<close>

definition canonical :: "registry \<Rightarrow> TargetNode \<Rightarrow> bool" where
  "canonical env t =
     (case str t of
        Inl e \<Rightarrow> False
      | Inr s \<Rightarrow>
          (case tags env s of
             Some t' \<Rightarrow> observationally_equal t' t
           | None \<Rightarrow>
               (case kinds env (kind t) of
                  None \<Rightarrow> False
                | Some k \<Rightarrow>
                    name k = kind t \<and> kind_name (kind t) \<and> hooks_ok k t \<and>
                    host t = None \<and> tag t = [] \<and> keys_ok k (keys t) \<and>
                    list_all (\<lambda>d. d \<in> set (keys t)) (device_key (written (attrs t))) \<and>
                    distinct (map fst (attrs t)) \<and>
                    list_all (attr_ok k) (attrs t) \<and>
                    list_all (\<lambda>kd. count (attrs t) (fst kd)) (key2default k))))"

text \<open>
  Targets that are canonical for reasons one can read off them. A word is plain when
  it is not empty and holds no space, comma, quote or escape.
\<close>

definition plain_word :: "string \<Rightarrow> bool" where
  "plain_word w =
     (w \<noteq> [] \<and> list_all (\<lambda>c. c \<noteq> CHR '' '' \<and> c \<noteq> CHR '','' \<and> c \<noteq> quote \<and> c \<noteq> escape) w)"

text \<open>
  The element of an array, by the element schema: a 64-bit integer, a boolean, or a
  non-empty string without space or comma (quotes and escapes are allowed).
\<close>

fun plain_elem :: "ValueTypeInfo \<Rightarrow> Any \<Rightarrow> bool" where
  "plain_elem VInt v = (case v of AInt i \<Rightarrow> - (2 ^ 63) \<le> i \<and> i < 2 ^ 63 | _ \<Rightarrow> False)"
| "plain_elem VBool v = (case v of ABool b \<Rightarrow> True | _ \<Rightarrow> False)"
| "plain_elem VStr v =
     (case v of AStr s \<Rightarrow> s \<noteq> [] \<and> CHR '' '' \<notin> set s \<and> CHR '','' \<notin> set s | _ \<Rightarrow> False)"
| "plain_elem VTarget v = False"
| "plain_elem (VArray elem) v = False"
| "plain_elem (VMap kinfo vinfo) v = False"
| "plain_elem VOther v = False"

text \<open>
  The attribute value, by schema: a 64-bit integer, a boolean, a non-empty string
  without a leading or trailing space, a non-empty array of such elements.
\<close>

fun plain_value :: "ValueTypeInfo \<Rightarrow> Any \<Rightarrow> bool" where
  "plain_value VInt v = (case v of AInt i \<Rightarrow> - (2 ^ 63) \<le> i \<and> i < 2 ^ 63 | _ \<Rightarrow> False)"
| "plain_value VBool v = (case v of ABool b \<Rightarrow> True | _ \<Rightarrow> False)"
| "plain_value VStr v =
     (case v of AStr s \<Rightarrow> s \<noteq> [] \<and> hd s \<noteq> CHR '' '' \<and> last s \<noteq> CHR '' '' | _ \<Rightarrow> False)"
| "plain_value (VArray elem) v =
     (case v of AArray es \<Rightarrow> es \<noteq> [] \<and> list_all (plain_elem elem) es | _ \<Rightarrow> False)"
| "plain_value VTarget v = False"
| "plain_value (VMap kinfo vinfo) v = False"
| "plain_value VOther v = False"

text \<open>
  An attribute name free of space, \<open>=\<close>, quote and escape, not empty, not starting
  with a dash and not reserved; a kind name free of space, quote and escape, not empty
  and not starting with a brace.
\<close>

definition plain_attr_name :: "string \<Rightarrow> bool" where
  "plain_attr_name key =
     (key \<noteq> [] \<and> hd key \<noteq> CHR ''-'' \<and>
      list_all (\<lambda>c. c \<noteq> CHR '' '' \<and> c \<noteq> CHR ''='' \<and> c \<noteq> quote \<and> c \<noteq> escape) key \<and>
      key \<notin> set reserved_keys)"

definition plain_kind_name :: "string \<Rightarrow> bool" where
  "plain_kind_name nm =
     (nm \<noteq> [] \<and> hd nm \<noteq> CHR ''{'' \<and>
      list_all (\<lambda>c. c \<noteq> CHR '' '' \<and> c \<noteq> quote \<and> c \<noteq> escape) nm)"

definition plain_attr :: "TargetKind \<Rightarrow> string \<times> Any \<Rightarrow> bool" where
  "plain_attr k kv =
     (plain_attr_name (fst kv) \<and>
      (case map_of (key2vtype k) (fst kv) of
         None \<Rightarrow> False
       | Some info \<Rightarrow> plain_value info (snd kv)))"

definition plain_target :: "registry \<Rightarrow> TargetNode \<Rightarrow> bool" where
  "plain_target env t =
     (case kinds env (kind t) of
        None \<Rightarrow> False
      | Some k \<Rightarrow>
          name k = kind t \<and> plain_kind_name (kind t) \<and> hooks_ok k t \<and>
          host t = None \<and> tag t = [] \<and>
          distinct (keys t) \<and> list_all plain_word (keys t) \<and>
          (if keys t = [] then default_keys k = []
           else map_of (key2vtype k) ''keys'' = Some (VArray VStr)) \<and>
          list_all (\<lambda>d. d \<in> set (keys t)) (device_key (attrs t)) \<and>
          distinct (map fst (attrs t)) \<and>
          list_all (plain_attr k) (attrs t) \<and>
          list_all (\<lambda>kd. count (attrs t) (fst kd)) (key2default k) \<and>
          (case str t of Inl e \<Rightarrow> False | Inr s \<Rightarrow> tags env s = None))"

section \<open>Notions used in the proofs\<close>

text \<open>
  A string passes the splitter when, met outside a quoted region, it is copied to the
  current word whole and leaves the splitter outside a quoted region.
\<close>

definition passes :: "char \<Rightarrow> string \<Rightarrow> bool" where
  "passes sep v =
     (\<forall>rest w out. SplitString_loop sep (v @ rest) False w out
        = SplitString_loop sep rest False (w @ v) out)"

text \<open>The elements with the separator between them.\<close>

definition joined :: "char \<Rightarrow> string list \<Rightarrow> string" where
  "joined sep xs = (case xs of [] \<Rightarrow> [] | x # ys \<Rightarrow> x @ concat (map ((#) sep) ys))"

text \<open>
  The text of an array element after the outer \<^verbatim>\<open>Interpret\<close> of the parser, and the
  token that stands for an entry of the parsed configuration.
\<close>

definition elem_text :: "Any \<Rightarrow> string" where
  "elem_text v =
     (case v of
        ABool b \<Rightarrow> to_string (if b then 1 else 0)
      | AInt i \<Rightarrow> to_string i
      | AStr s \<Rightarrow> Uninterpret s
      | _ \<Rightarrow> [])"

definition keys_tokens :: "string list \<Rightarrow> string list" where
  "keys_tokens ks = (if ks = [] then [] else [''-keys='' @ str_keys ks True])"

section \<open>Properties of the quoting engine\<close>

lemma quote_neq_escape: "quote \<noteq> escape"
  by (simp add: quote_def escape_def)

lemma Interpret_loop_Uninterpret:
  "Interpret_loop (Uninterpret s) False False r = r @ s"
  by (induction s arbitrary: r) (auto simp: quote_def escape_def)

lemma IsQuoted_Uninterpret: "\<not> IsQuoted (Uninterpret s)"
  by (cases s) (auto simp: IsQuoted_def quote_def escape_def)

lemma Interpret_of_Uninterpret: "Interpret (Uninterpret s) = s"
proof (cases s)
  case Nil
  then show ?thesis by (simp add: Interpret_def)
next
  case (Cons c cs)
  then have "Uninterpret s \<noteq> []" by simp
  then show ?thesis
    by (simp add: Interpret_def IsQuoted_Uninterpret Interpret_loop_Uninterpret)
qed

text \<open>
  C2. Interpreting the literal that \<^verbatim>\<open>Uninterpret\<close> makes of a string gives the
  string back, for every string, quotes and escapes included.
\<close>

theorem Interpret_Uninterpret: "Interpret (Uninterpret s) = s"
  by (rule Interpret_of_Uninterpret)

theorem Interpret_Uninterpret_witness:
  "Interpret (Uninterpret [CHR ''a'', quote, escape, CHR ''b'']) = [CHR ''a'', quote, escape, CHR ''b'']"
  by (rule Interpret_Uninterpret)

lemma spec_escaped_at_from: "spec_escaped_at m i = escaped_from False m i"
  by (induction i) auto

lemma escaped_from_Cons:
  "escaped_from e (c # cs) (Suc i) = escaped_from (c = escape \<and> \<not> e) cs i"
  by (induction i) auto

lemma all_less_Suc_shift: "(\<forall>i < Suc n. P i) \<longleftrightarrow> P 0 \<and> (\<forall>i < n. P (Suc i))"
  by (metis less_Suc_eq_0_disj)

lemma IsQuoted_loop_char:
  "IsQuoted_loop m e \<longleftrightarrow>
     (\<forall>i < length m. m ! i = quote \<longrightarrow> escaped_from e m i) \<and> \<not> escaped_from e m (length m)"
proof (induction m arbitrary: e)
  case Nil
  then show ?case by simp
next
  case (Cons c cs)
  show ?case
    unfolding length_Cons all_less_Suc_shift escaped_from_Cons
    using quote_neq_escape by (auto simp: Cons.IH simp del: escaped_from.simps(2))
qed

text \<open>
  C3, as the specification states it, fails: a string whose interior ends in an active
  escape starts and ends with a quote and has no unescaped interior quote, yet
  \<^verbatim>\<open>IsQuoted\<close> answers false, because its closing quote is escaped.
\<close>

theorem IsQuoted_counterexample:
  "IsQuoted [quote, escape, quote] \<noteq> spec_IsFullyQuoted [quote, escape, quote]"
  by (simp add: IsQuoted_def spec_IsFullyQuoted_def interior_def quote_def escape_def)

text \<open>
  C3, amended. \<^verbatim>\<open>IsQuoted\<close> holds exactly when the string has length at least 2,
  starts and ends with a quote, has no unescaped quote in its interior, and its closing
  quote is not escaped by the interior. The two examples of the specification hold.
\<close>

theorem IsQuoted_iff:
  "(IsQuoted s \<longleftrightarrow>
      spec_IsFullyQuoted s \<and> \<not> spec_escaped_at (interior s) (length (interior s)))
   \<and> IsQuoted ([quote] @ ''a'' @ [escape, quote] @ ''b'' @ [quote]) = True
   \<and> IsQuoted ([quote] @ ''a'' @ [quote] @ ''b'' @ [quote]) = False"
proof -
  have "IsQuoted s \<longleftrightarrow>
      spec_IsFullyQuoted s \<and> \<not> spec_escaped_at (interior s) (length (interior s))"
    unfolding IsQuoted_def spec_IsFullyQuoted_def spec_escaped_at_from interior_def[symmetric]
    by (auto simp: IsQuoted_loop_char)
  moreover have "IsQuoted ([quote] @ ''a'' @ [escape, quote] @ ''b'' @ [quote]) = True"
    by (simp add: IsQuoted_def quote_def escape_def)
  moreover have "IsQuoted ([quote] @ ''a'' @ [quote] @ ''b'' @ [quote]) = False"
    by (simp add: IsQuoted_def quote_def escape_def)
  ultimately show ?thesis by blast
qed

theorem IsQuoted_iff_witness:
  "IsQuoted ([quote] @ ''a b'' @ [quote]) \<and> spec_IsFullyQuoted ([quote] @ ''a b'' @ [quote])
   \<and> \<not> spec_escaped_at (interior ([quote] @ ''a b'' @ [quote])) 3"
proof -
  have "IsQuoted ([quote] @ ''a b'' @ [quote])"
    by (simp add: IsQuoted_def quote_def escape_def)
  moreover have "length (interior ([quote] @ ''a b'' @ [quote])) = 3"
    by (simp add: interior_def)
  ultimately show ?thesis
    using IsQuoted_iff [of "[quote] @ ''a b'' @ [quote]"] by metis
qed

text \<open>
  C7. The source documents that a trailing escape is not allowed, and checks nothing:
  on an input that ends in an unmatched escape \<^verbatim>\<open>Interpret\<close> returns, dropping the
  escape.
\<close>

theorem Interpret_trailing_escape:
  "Interpret (''a'' @ [escape]) = ''a''"
  by (simp add: Interpret_def IsQuoted_def quote_def escape_def)

section \<open>Properties of the splitter\<close>

lemma SplitString_loop_spec:
  "sep \<noteq> escape \<Longrightarrow>
   SplitString_loop sep s q w out =
     (if spec_quoted_at_end sep (spec_units s) q then Inl InternalError
      else Inr (out @ filter (\<lambda>t. t \<noteq> []) (spec_tokens sep (spec_units s) q w)))"
proof (induction s arbitrary: q w out rule: spec_units.induct)
  case 1
  then show ?case by (simp add: finish_word_def)
next
  case (2 c)
  then show ?case by (auto simp: finish_word_def)
next
  case (3 c d cs)
  show ?case
  proof (cases "c = escape")
    case True
    have step: "SplitString_loop sep (c # d # cs) q w out
        = SplitString_loop sep cs q (w @ [escape, d]) out"
      using True "3.prems" by simp
    have units: "spec_units (c # d # cs) = [escape, d] # spec_units cs"
      using True by simp
    show ?thesis
      unfolding step units using "3.IH"(1)[OF True "3.prems"] "3.prems" quote_neq_escape
      by simp
  next
    case False
    have step: "SplitString_loop sep (c # d # cs) q w out =
        (if c = sep \<and> \<not> q then
           SplitString_loop sep (d # cs) q
             (fst (finish_word (w, out))) (snd (finish_word (w, out)))
         else if c = quote then SplitString_loop sep (d # cs) (\<not> q) (w @ [quote]) out
         else SplitString_loop sep (d # cs) q (w @ [c]) out)"
      by (simp only: SplitString_loop.simps(2)[of sep c "d # cs"] False simp_thms if_False)
    have units: "spec_units (c # d # cs) = [c] # spec_units (d # cs)"
      using False by simp
    show ?thesis
      unfolding step units
      by (simp add: "3.IH"(2)[OF False "3.prems"] finish_word_def
          del: SplitString_loop.simps spec_units.simps)
  qed
qed

text \<open>
  C4, as stated for every separator, fails when the separator is the escape character:
  the source tests for the separator first, so the escape is cut out as a separator
  instead of being copied through with the character after it.
\<close>

theorem SplitString_counterexample:
  "SplitString [escape, CHR ''a''] escape \<noteq> spec_SplitString [escape, CHR ''a''] escape"
  by (simp add: SplitString_def spec_SplitString_def finish_word_def quote_def escape_def)

text \<open>
  C4, amended. For every string and every separator other than the escape character,
  \<^verbatim>\<open>SplitString\<close> computes what the specification describes: it cuts at separators
  outside quoted regions, keeps an escape and the character after it together, drops
  empty tokens (and is fatal on an input ending inside a quoted region). The example of
  the specification holds.
\<close>

theorem SplitString_refines:
  "(sep \<noteq> escape \<longrightarrow> SplitString s sep = spec_SplitString s sep)
   \<and> SplitString (''a,'' @ [quote] @ ''b,c'' @ [quote] @ '',d'') (CHR '','')
       = Inr [''a'', [quote] @ ''b,c'' @ [quote], ''d'']"
proof -
  have "SplitString (''a,'' @ [quote] @ ''b,c'' @ [quote] @ '',d'') (CHR '','')
       = Inr [''a'', [quote] @ ''b,c'' @ [quote], ''d'']"
    by (simp add: SplitString_def finish_word_def quote_def escape_def)
  then show ?thesis
    by (simp add: SplitString_def spec_SplitString_def SplitString_loop_spec)
qed

theorem SplitString_refines_witness:
  "CHR '' '' \<noteq> escape \<and> SplitString (''x y'') (CHR '' '') = spec_SplitString (''x y'') (CHR '' '')
   \<and> SplitString (''x y'') (CHR '' '') = Inr [''x'', ''y'']"
proof -
  have h: "CHR '' '' \<noteq> escape" by (simp add: escape_def)
  have "SplitString (''x y'') (CHR '' '') = Inr [''x'', ''y'']"
    by (simp add: SplitString_def finish_word_def quote_def escape_def)
  with h SplitString_refines [of "CHR '' ''" "''x y''"] show ?thesis by blast
qed

section \<open>Properties of the key/value flag parser\<close>

lemma find_first_of_append:
  "ch \<notin> set k \<Longrightarrow> find_first_of (k @ ch # v) ch = Some (length k)"
  by (induction k) auto

lemma find_first_of_None: "ch \<notin> set s \<Longrightarrow> find_first_of s ch = None"
  by (induction s) auto

text \<open>
  C5. A token that contains \<open>=\<close> is cut at the first one, fails with a ValueError when
  either half is empty, and consumes one token; a token without \<open>=\<close> takes a
  non-empty next token that does not start with a dash as its value and consumes two;
  otherwise it is a boolean flag with value \<open>1\<close> and consumes one.
\<close>

theorem ParseKVPair_cases:
  "(CHR ''='' \<notin> set k \<longrightarrow>
      ParseKVPair (k @ CHR ''='' # v) s_next =
        (if k = [] \<or> v = [] then Inl ValueError else Inr (1, k, v)))
   \<and> (CHR ''='' \<notin> set s \<and> s_next \<noteq> [] \<and> hd s_next \<noteq> CHR ''-'' \<longrightarrow>
        ParseKVPair s s_next = Inr (2, s, s_next))
   \<and> (CHR ''='' \<notin> set s \<and> (s_next = [] \<or> hd s_next = CHR ''-'') \<longrightarrow>
        ParseKVPair s s_next = Inr (1, s, ''1''))"
  by (cases s_next) (auto simp: ParseKVPair_def find_first_of_append find_first_of_None)

theorem ParseKVPair_cases_witness:
  "ParseKVPair ''opt-level=3'' ''-x'' = Inr (1, ''opt-level'', ''3'')
   \<and> ParseKVPair ''mcpu'' ''cortex'' = Inr (2, ''mcpu'', ''cortex'')
   \<and> ParseKVPair ''fast'' ''-x'' = Inr (1, ''fast'', ''1'')"
  using ParseKVPair_cases [of "''opt-level''" "''3''" "''-x''" "''mcpu''"]
    ParseKVPair_cases [of "''opt-level''" "''3''" "''cortex''" "''mcpu''"]
    ParseKVPair_cases [of "''opt-level''" "''3''" "''-x''" "''fast''"]
  by simp

section \<open>Properties of the context stack\<close>

text \<open>
  C8. \<^verbatim>\<open>ExitWithScope\<close> succeeds, popping the top, exactly when the stack is not empty
  and its top is the same object as the target; otherwise it is fatal. Equal nodes at
  different addresses do not count as the same object, and entering A, entering B and
  exiting A is fatal when A and B are different objects.
\<close>

theorem ExitWithScope_iff:
  "((\<exists>entry'. ExitWithScope t entry = Inr entry') \<longleftrightarrow>
      context_stack entry \<noteq> [] \<and> address (hd (context_stack entry)) = address t)
   \<and> (context_stack entry \<noteq> [] \<and> address (hd (context_stack entry)) = address t \<longrightarrow>
        ExitWithScope t entry = Inr (entry\<lparr>context_stack := tl (context_stack entry)\<rparr>))
   \<and> (\<not> (context_stack entry \<noteq> [] \<and> address (hd (context_stack entry)) = address t) \<longrightarrow>
        ExitWithScope t entry = Inl InternalError)
   \<and> (address a \<noteq> address b \<longrightarrow>
        ExitWithScope a (EnterWithScope b (EnterWithScope a entry)) = Inl InternalError)"
  by (auto simp: ExitWithScope_def EnterWithScope_def same_as_def)

theorem ExitWithScope_iff_witness:
  "ExitWithScope \<lparr>address = 1, node = ()\<rparr>
     (EnterWithScope \<lparr>address = 2, node = ()\<rparr>
       (EnterWithScope \<lparr>address = 1, node = ()\<rparr> \<lparr>context_stack = []\<rparr>)) = Inl InternalError
   \<and> ExitWithScope \<lparr>address = 2, node = ()\<rparr>
     (EnterWithScope \<lparr>address = 2, node = ()\<rparr>
       (EnterWithScope \<lparr>address = 1, node = ()\<rparr> \<lparr>context_stack = []\<rparr>))
     = Inr \<lparr>context_stack = [\<lparr>address = 1, node = ()\<rparr>]\<rparr>"
  using ExitWithScope_iff [where t = "\<lparr>address = 2, node = ()\<rparr>"
      and entry = "EnterWithScope \<lparr>address = 2, node = ()\<rparr>
        (EnterWithScope \<lparr>address = 1, node = ()\<rparr> \<lparr>context_stack = []\<rparr>)"
      and a = "\<lparr>address = 1, node = ()\<rparr>" and b = "\<lparr>address = 2, node = ()\<rparr>"]
    ExitWithScope_iff [where t = "\<lparr>address = 1, node = ()\<rparr>"
      and entry = "\<lparr>context_stack = []\<rparr>"
      and a = "\<lparr>address = 1, node = ()\<rparr>" and b = "\<lparr>address = 2, node = ()\<rparr>"]
  by (simp add: EnterWithScope_def)

section \<open>Properties of the assembler\<close>

lemma constructors_fun:
  "FromString n env = (\<lambda>x. construct n env (CallFromString x))"
  "FromConfigString n env = (\<lambda>x. construct n env (CallFromConfigString x))"
  "FromRawString n env = (\<lambda>x. construct n env (CallFromRawString x))"
  "FromConfig n env = (\<lambda>x. construct n env (CallFromConfig x))"
  "ConstructorDispatcher n env = (\<lambda>x. construct n env (CallConstructorDispatcher x))"
  by (rule ext, simp add: FromString_def FromConfigString_def FromRawString_def FromConfig_def
      ConstructorDispatcher_def)+

lemma FromString_Suc:
  "FromString (Suc n) env s = FromString_body env (FromConfigString n env) (FromRawString n env) s"
  by (simp add: constructors_fun)

lemma FromConfigString_Suc:
  "FromConfigString (Suc n) env s = FromConfigString_body env (FromConfig n env) s"
  by (simp add: constructors_fun)

lemma FromRawString_Suc:
  "FromRawString (Suc n) env s = FromRawString_body env (FromString n env) (FromConfig n env) s"
  by (simp add: constructors_fun)

lemma FromConfig_Suc:
  "FromConfig (Suc n) env cfg =
     FromConfig_body env (FromString n env) (FromConfig n env) (ConstructorDispatcher n env) cfg"
  by (simp add: constructors_fun)

lemma ConstructorDispatcher_Suc:
  "ConstructorDispatcher (Suc n) env args =
     ConstructorDispatcher_body (FromString n env) (FromConfig n env) args"
  by (simp add: constructors_fun)

lemma constructors_0:
  "FromString 0 env s = None" "FromConfigString 0 env s = None" "FromRawString 0 env s = None"
  "FromConfig 0 env cfg = None" "ConstructorDispatcher 0 env args = None"
  by (simp_all add: FromString_def FromConfig_def ConstructorDispatcher_def FromConfigString_def FromRawString_def)

lemma bind_res_simps [simp]:
  "bind_res None f = None"
  "bind_res (Some (Inl e)) f = Some (Inl e)"
  "bind_res (Some (Inr x)) f = f x"
  by (simp_all add: bind_res_def)

lemma bind_res_eq_Some_Inr:
  "bind_res m f = Some (Inr y) \<longleftrightarrow> (\<exists>x. m = Some (Inr x) \<and> f x = Some (Inr y))"
  by (auto simp: bind_res_def split: option.splits sum.splits)

lemma DeduplicateKeys_loop_spec:
  "DeduplicateKeys_loop seen ks new = new @ spec_dedup (filter (\<lambda>y. y \<notin> set seen) ks)"
proof (induction ks arbitrary: seen new)
  case Nil
  then show ?case by simp
next
  case (Cons k ks)
  have eq: "filter (\<lambda>y. y \<notin> set (seen @ [k])) ks
      = filter (\<lambda>y. y \<noteq> k) (filter (\<lambda>y. y \<notin> set seen) ks)"
    by (auto intro: filter_cong)
  show ?case
  proof (cases "k \<in> set seen")
    case True
    then have "filter (\<lambda>y. y \<notin> set (seen @ [k])) ks = filter (\<lambda>y. y \<notin> set seen) ks"
      by (auto intro: filter_cong)
    with True show ?thesis by (simp add: Cons.IH del: set_append)
  next
    case False
    then show ?thesis by (simp add: Cons.IH eq del: set_append)
  qed
qed

lemma DeduplicateKeys_spec: "DeduplicateKeys ks = spec_dedup ks"
  by (simp add: DeduplicateKeys_def DeduplicateKeys_loop_spec)

lemma FromConfig_finish_fields:
  "FromConfig_finish env k feats tg ks hst parsed = Inr t \<Longrightarrow>
     kind t = name k \<and> host t = hst \<and> tag t = tg \<and> keys t = ks \<and> features t = feats"
  by (auto simp: FromConfig_finish_def Let_def split: option.splits sum.splits Any.splits)

lemma FromConfig_body_fields:
  assumes "FromConfig_body env fs fc d cfg = Some (Inr t)"
  shows "\<exists>k feats cfg1 tg cfg2 ks cfg3.
           \<not> count cfg ''features'' \<and>
           FromConfig_kind env cfg = Inr (k, feats, cfg1) \<and> FromConfig_tag cfg1 = Inr (tg, cfg2) \<and>
           FromConfig_keys k cfg2 = Inr (ks, cfg3) \<and>
           kind t = name k \<and> tag t = tg \<and> keys t = ks \<and> features t = feats"
  using assms
  by (auto simp: FromConfig_body_def bind_res_eq_Some_Inr
      split: if_splits sum.splits prod.splits dest!: FromConfig_finish_fields)

lemma FromConfig_kind_Inr:
  assumes "FromConfig_kind env cfg = Inr (k, feats, cfg1)"
  shows "\<exists>nm cfg'. map_of cfg ''kind'' = Some (AStr nm) \<and> kinds env nm = Some k \<and>
           parsed_config k cfg cfg' \<and>
           (feats \<noteq> [] \<longrightarrow> target_parser k \<noteq> None) \<and>
           map_of cfg1 ''keys'' = map_of cfg' ''keys'' \<and>
           map_of cfg1 ''device'' = map_of cfg' ''device''"
  using assms
  by (auto simp: FromConfig_kind_def GetTargetKind_def parsed_config_def delete_conv'
      split: option.splits Any.splits sum.splits if_splits)

lemma FromConfig_tag_Inr:
  assumes "FromConfig_tag cfg1 = Inr (tg, cfg2)"
  shows "map_of cfg2 ''keys'' = map_of cfg1 ''keys'' \<and> map_of cfg2 ''device'' = map_of cfg1 ''device''"
  using assms
  by (auto simp: FromConfig_tag_def delete_conv' split: option.splits Any.splits)

lemma FromConfig_keys_Inr:
  assumes "FromConfig_keys k cfg2 = Inr (ks, cfg3)"
  shows "ks = resolve_keys k cfg2"
  using assms
  by (auto simp: FromConfig_keys_def resolve_keys_def device_key_def count_def Let_def
      DeduplicateKeys_spec split: option.splits Any.splits if_splits)

lemma resolve_keys_cong:
  assumes "map_of a ''keys'' = map_of b ''keys''" and "map_of a ''device'' = map_of b ''device''"
  shows "resolve_keys k a = resolve_keys k b"
proof -
  have h: "device_key a = device_key b"
    by (simp add: device_key_def assms(2))
  show ?thesis unfolding resolve_keys_def assms(1) h by (rule refl)
qed

text \<open>
  C6, amended. For every configuration the assembler accepts, the keys of the target
  are resolved from the configuration (as rewritten by the kind's \<^verbatim>\<open>target_parser\<close>
  hook, if it has one): the explicit keys in their order followed by the device name, or,
  without explicit keys, the device name followed by the kind's default keys; then
  duplicates are removed, first occurrences staying. The example of the specification
  yields the keys cpu, arm.
\<close>

theorem FromConfig_keys_resolved:
  "(FromConfig n env cfg = Some (Inr t) \<longrightarrow>
      (\<exists>nm k cfg'. map_of cfg ''kind'' = Some (AStr nm) \<and> kinds env nm = Some k \<and>
         parsed_config k cfg cfg' \<and> keys t = resolve_keys k cfg'))
   \<and> map_option (map_sum id keys)
        (FromConfig 1 example_registry
           [(''kind'', AStr ''llvm''), (''keys'', AArray [AStr ''cpu'']), (''device'', AStr ''arm'')])
       = Some (Inr [''cpu'', ''arm''])"
proof -
  have "\<exists>nm k cfg'. map_of cfg ''kind'' = Some (AStr nm) \<and> kinds env nm = Some k \<and>
         parsed_config k cfg cfg' \<and> keys t = resolve_keys k cfg'"
    if ok: "FromConfig n env cfg = Some (Inr t)"
  proof -
    from ok obtain m where n: "n = Suc m"
      by (cases n) (simp_all add: constructors_0)
    from ok [unfolded n FromConfig_Suc] obtain k feats cfg1 tg cfg2 ks cfg3 where
      a: "FromConfig_kind env cfg = Inr (k, feats, cfg1)" and
      b: "FromConfig_tag cfg1 = Inr (tg, cfg2)" and
      c: "FromConfig_keys k cfg2 = Inr (ks, cfg3)" and d: "keys t = ks"
      using FromConfig_body_fields by blast
    from FromConfig_kind_Inr [OF a] obtain nm cfg' where
      e: "map_of cfg ''kind'' = Some (AStr nm)" "kinds env nm = Some k" "parsed_config k cfg cfg'"
      "map_of cfg1 ''keys'' = map_of cfg' ''keys''" "map_of cfg1 ''device'' = map_of cfg' ''device''"
      by blast
    have "resolve_keys k cfg2 = resolve_keys k cfg'"
      using FromConfig_tag_Inr [OF b] e(4,5) by (intro resolve_keys_cong) simp_all
    with FromConfig_keys_Inr [OF c] d have "keys t = resolve_keys k cfg'" by simp
    with e(1,2,3) show ?thesis by blast
  qed
  moreover have "map_option (map_sum id keys)
        (FromConfig 1 example_registry
           [(''kind'', AStr ''llvm''), (''keys'', AArray [AStr ''cpu'']), (''device'', AStr ''arm'')])
       = Some (Inr [''cpu'', ''arm''])"
    by (simp add: FromConfig_Suc FromConfig_body_def count_def FromConfig_kind_def GetTargetKind_def
        example_registry_def example_kind_def FromConfig_tag_def FromConfig_keys_def
        DeduplicateKeys_def is_str_def the_str_def FromConfig_attr_def FindTypeInfo_def
        FromConfig_finish_def set_if_absent_def)
  ultimately show ?thesis by blast
qed

lemmas example_simps =
  FromConfig_Suc FromConfig_body_def count_def FromConfig_kind_def GetTargetKind_def
  example_registry_def example_kind_def FromConfig_tag_def FromConfig_keys_def
  DeduplicateKeys_def is_str_def the_str_def FromConfig_attr_def FindTypeInfo_def
  FromConfig_finish_def set_if_absent_def

text \<open>
  C6, as stated, fails without explicit keys: the device name is put before the
  kind's default keys, not appended after them.
\<close>

theorem FromConfig_keys_counterexample:
  "map_option (map_sum id keys)
     (FromConfig 1 example_registry [(''kind'', AStr ''llvm''), (''device'', AStr ''arm'')])
     = Some (Inr [''arm'', ''cpu''])
   \<and> spec_resolve_keys example_kind [(''kind'', AStr ''llvm''), (''device'', AStr ''arm'')]
     = [''cpu'', ''arm'']"
  by (simp add: example_simps spec_resolve_keys_def device_key_def)

theorem FromConfig_keys_resolved_witness:
  "FromConfig 1 example_registry [(''kind'', AStr ''llvm''), (''device'', AStr ''arm'')]
     = Some (Inr (TargetNode ''llvm'' None [] [''arm'', ''cpu''] [(''device'', AStr ''arm'')] []))
   \<and> (\<exists>nm k cfg'.
         map_of [(''kind'', AStr ''llvm''), (''device'', AStr ''arm'')] ''kind'' = Some (AStr nm) \<and>
         kinds example_registry nm = Some k \<and>
         parsed_config k [(''kind'', AStr ''llvm''), (''device'', AStr ''arm'')] cfg' \<and>
         [''arm'', ''cpu''] = resolve_keys k cfg')"
proof -
  have r: "FromConfig 1 example_registry [(''kind'', AStr ''llvm''), (''device'', AStr ''arm'')]
     = Some (Inr (TargetNode ''llvm'' None [] [''arm'', ''cpu''] [(''device'', AStr ''arm'')] []))"
    by (simp add: example_simps)
  from FromConfig_keys_resolved [of 1 example_registry
      "[(''kind'', AStr ''llvm''), (''device'', AStr ''arm'')]"
      "TargetNode ''llvm'' None [] [''arm'', ''cpu''] [(''device'', AStr ''arm'')] []"] r
  show ?thesis by simp
qed

text \<open>
  C9. A configuration that holds the key \<open>features\<close> is refused by the first check of
  \<^verbatim>\<open>FromConfig\<close>, a fatal error (a ValueError through the public constructor),
  whatever else it holds; and a target with features comes from a kind that has a
  \<^verbatim>\<open>target_parser\<close> hook.
\<close>

theorem FromConfig_features_rejected:
  "(count cfg ''features'' \<longrightarrow>
      FromConfig (Suc n) env cfg = Some (Inl InternalError) \<and>
      Target_from_config (Suc n) env cfg = Some (Inl ValueError) \<and>
      (\<forall>m t. FromConfig m env cfg \<noteq> Some (Inr t)))
   \<and> (FromConfig m env cfg = Some (Inr t) \<and> features t \<noteq> [] \<longrightarrow>
        (\<exists>nm k. map_of cfg ''kind'' = Some (AStr nm) \<and> kinds env nm = Some k \<and>
           target_parser k \<noteq> None))"
proof -
  have a: "FromConfig (Suc n) env cfg = Some (Inl InternalError)" if "count cfg ''features''" for n
    using that by (simp add: FromConfig_Suc FromConfig_body_def)
  have b: "FromConfig m env cfg \<noteq> Some (Inr t)" if "count cfg ''features''" for m t
    using a [OF that] by (cases m) (simp_all add: constructors_0)
  have c: "\<exists>nm k. map_of cfg ''kind'' = Some (AStr nm) \<and> kinds env nm = Some k \<and>
           target_parser k \<noteq> None"
    if ok: "FromConfig m env cfg = Some (Inr t)" and f: "features t \<noteq> []"
  proof -
    from ok obtain m' where m: "m = Suc m'"
      by (cases m) (simp_all add: constructors_0)
    from ok [unfolded m FromConfig_Suc] obtain k feats cfg1 where
      k: "FromConfig_kind env cfg = Inr (k, feats, cfg1)" and "features t = feats"
      using FromConfig_body_fields by blast
    with f FromConfig_kind_Inr [OF k] show ?thesis by blast
  qed
  show ?thesis using a b c by (simp add: Target_from_config_def as_ValueError_def)
qed

theorem FromConfig_features_rejected_witness:
  "count [(''kind'', AStr ''llvm''), (''features'', AMap [])] ''features''
   \<and> FromConfig 1 example_registry [(''kind'', AStr ''llvm''), (''features'', AMap [])]
       = Some (Inl InternalError)"
proof -
  have h: "count [(''kind'', AStr ''llvm''), (''features'', AMap [])] ''features''"
    by (simp add: count_def)
  with FromConfig_features_rejected [of "[(''kind'', AStr ''llvm''), (''features'', AMap [])]"
      0 example_registry]
  show ?thesis by simp
qed

text \<open>
  C10. When the empty string is not a registered tag, constructing a target from it
  reaches \<^verbatim>\<open>FromRawString\<close>, whose first check is fatal; no amount of fuel yields a
  target.
\<close>

theorem FromString_empty_fails:
  "tags env [] = None \<longrightarrow>
     FromString (Suc (Suc n)) env [] = Some (Inl InternalError) \<and>
     Target_from_string (Suc (Suc n)) env [] = Some (Inl ValueError) \<and>
     (\<forall>m t. FromString m env [] \<noteq> Some (Inr t))"
proof
  assume tg: "tags env [] = None"
  have a: "FromString (Suc (Suc n)) env [] = Some (Inl InternalError)" for n
    using tg by (simp add: FromString_Suc FromString_body_def FromRawString_Suc FromRawString_body_def)
  have b: "FromString m env [] \<noteq> Some (Inr t)" for m t
  proof (cases m)
    case 0
    then show ?thesis by (simp add: constructors_0)
  next
    case (Suc m')
    then show ?thesis
      using tg a [of "m' - 1"]
      by (cases m') (simp_all add: FromString_Suc FromString_body_def constructors_0)
  qed
  show "FromString (Suc (Suc n)) env [] = Some (Inl InternalError) \<and>
     Target_from_string (Suc (Suc n)) env [] = Some (Inl ValueError) \<and>
     (\<forall>m t. FromString m env [] \<noteq> Some (Inr t))"
    using a b by (simp add: Target_from_string_def as_ValueError_def)
qed

theorem FromString_empty_fails_witness:
  "tags example_registry [] = None
   \<and> FromString 2 example_registry [] = Some (Inl InternalError)"
proof -
  have h: "tags example_registry [] = None" by (simp add: example_registry_def)
  with FromString_empty_fails [of example_registry 0] show ?thesis
    by (simp add: numeral_2_eq_2)
qed

section \<open>The canonical string parses back\<close>

subsection \<open>Observational equality, said over the entries\<close>

lemma same_map_iff: "same_map a b \<longleftrightarrow> map_of a = map_of b"
proof
  assume s: "same_map a b"
  show "map_of a = map_of b"
  proof
    fix x
    show "map_of a x = map_of b x"
    proof (cases "x \<in> fst ` set (a @ b)")
      case True
      with s show ?thesis by (auto simp: same_map_def list_all_iff)
    next
      case False
      then have "map_of a x = None" "map_of b x = None" by (auto simp: map_of_eq_None_iff)
      then show ?thesis by simp
    qed
  qed
next
  assume "map_of a = map_of b"
  then show "same_map a b" by (simp add: same_map_def list_all_iff)
qed

lemma observationally_equal_code [code]:
  "observationally_equal t t' =
     (kind t = kind t' \<and> tag t = tag t' \<and> keys t = keys t' \<and>
      same_map (attrs t) (attrs t') \<and> host t = host t')"
  by (simp add: observationally_equal_def same_map_iff)

subsection \<open>The splitter on tokens that pass\<close>

lemma token_scan_loop:
  "token_scan sep v q \<Longrightarrow>
   SplitString_loop sep (v @ rest) q w out = SplitString_loop sep rest False (w @ v) out"
proof (induction sep v q arbitrary: w rule: token_scan.induct)
  case (1 sep q)
  then show ?case by simp
next
  case (2 sep c cs q)
  show ?case
  proof (cases "c = sep \<and> \<not> q")
    case True
    with "2.prems" show ?thesis by simp
  next
    case ns: False
    show ?thesis
    proof (cases "c = escape")
      case True
      with ns "2.prems" have cs: "cs \<noteq> []" and t: "token_scan sep (tl cs) q" by auto
      from cs obtain d ds where d: "cs = d # ds" by (cases cs) auto
      have "SplitString_loop sep (tl cs @ rest) q (w @ [escape, hd cs]) out
          = SplitString_loop sep rest False ((w @ [escape, hd cs]) @ tl cs) out"
        using ns True t by (intro "2.IH"(1)) auto
      with ns True d show ?thesis by (cases q) auto
    next
      case ne: False
      show ?thesis
      proof (cases "c = quote")
        case True
        with ns ne "2.prems" have t: "token_scan sep cs (\<not> q)" by auto
        have "SplitString_loop sep (cs @ rest) (\<not> q) (w @ [quote]) out
          = SplitString_loop sep rest False ((w @ [quote]) @ cs) out"
          using ns ne True t by (intro "2.IH"(2)) auto
        with ns ne True show ?thesis by (cases q) auto
      next
        case nq: False
        with ns ne "2.prems" have t: "token_scan sep cs q" by auto
        have "SplitString_loop sep (cs @ rest) q (w @ [c]) out
          = SplitString_loop sep rest False ((w @ [c]) @ cs) out"
          using ns ne nq t by (intro "2.IH"(3)) auto
        with ns ne nq show ?thesis by (cases q) auto
      qed
    qed
  qed
qed

lemma token_scan_passes: "token_scan sep v False \<Longrightarrow> passes sep v"
  by (simp add: passes_def token_scan_loop)

lemma token_scan_append:
  "token_scan sep u q \<Longrightarrow> token_scan sep v False \<Longrightarrow> token_scan sep (u @ v) q"
proof (induction sep u q rule: token_scan.induct)
  case (1 sep q)
  then show ?case by simp
next
  case (2 sep c cs q)
  show ?case
  proof (cases "c = escape")
    case True
    with "2.prems" obtain d ds where d: "cs = d # ds" by (cases cs) (auto split: if_splits)
    with True "2.prems" "2.IH"(1) show ?thesis by (auto split: if_splits)
  next
    case False
    with "2.prems" "2.IH"(2,3) show ?thesis by (auto split: if_splits)
  qed
qed

lemma token_scan_plain:
  "q \<or> sep \<notin> set v \<Longrightarrow> quote \<notin> set v \<Longrightarrow> escape \<notin> set v \<Longrightarrow>
   token_scan sep (v @ rest) q = token_scan sep rest q"
  by (induction v) auto

lemma token_scan_Uninterpret:
  "sep \<noteq> quote \<Longrightarrow> sep \<noteq> escape \<Longrightarrow> q \<or> sep \<notin> set s \<Longrightarrow>
   token_scan sep (Uninterpret s @ rest) q = token_scan sep rest q"
  using quote_neq_escape by (induction s) auto

lemma token_scan_Quote_Uninterpret:
  assumes "sep \<noteq> quote" "sep \<noteq> escape"
  shows "token_scan sep (Quote (Uninterpret s) @ rest) False = token_scan sep rest False"
proof -
  have "token_scan sep (Quote (Uninterpret s) @ rest) False
      = token_scan sep (Uninterpret s @ quote # rest) True"
    using assms quote_neq_escape by (simp add: Quote_def)
  also have "\<dots> = token_scan sep (quote # rest) True"
    using assms by (simp add: token_scan_Uninterpret)
  also have "\<dots> = token_scan sep rest False"
    using assms quote_neq_escape by simp
  finally show ?thesis .
qed

lemma passes_Nil: "passes sep []"
  by (simp add: passes_def)

lemma passes_append: "passes sep u \<Longrightarrow> passes sep v \<Longrightarrow> passes sep (u @ v)"
  by (simp add: passes_def)

lemma passes_plain:
  "sep \<notin> set v \<Longrightarrow> quote \<notin> set v \<Longrightarrow> escape \<notin> set v \<Longrightarrow> passes sep v"
  using token_scan_plain [of False sep v "[]"] by (simp add: token_scan_passes)

lemma passes_Uninterpret:
  "sep \<noteq> quote \<Longrightarrow> sep \<noteq> escape \<Longrightarrow> sep \<notin> set s \<Longrightarrow> passes sep (Uninterpret s)"
  using token_scan_Uninterpret [of sep False s "[]"] by (simp add: token_scan_passes)

lemma passes_Quote_Uninterpret:
  "sep \<noteq> quote \<Longrightarrow> sep \<noteq> escape \<Longrightarrow> passes sep (Quote (Uninterpret s))"
  using token_scan_Quote_Uninterpret [of sep s "[]"] by (simp add: token_scan_passes)

lemma JoinString_loop_False:
  "JoinString_loop xs sep False r = r @ concat (map ((#) sep) xs)"
  by (induction xs arbitrary: r) auto

lemma JoinString_loop_joined: "JoinString_loop xs sep True [] = joined sep xs"
  by (cases xs) (simp_all add: joined_def JoinString_loop_False)

lemma str_keys_False: "str_keys ks False = concat (map ((#) (CHR '','')) ks)"
  by (induction ks) auto

lemma str_keys_joined: "str_keys ks True = joined (CHR '','') ks"
  by (cases ks) (simp_all add: joined_def str_keys_False)

lemma SplitString_loop_tokens:
  assumes "sep \<noteq> quote" "sep \<noteq> escape"
    and "list_all (\<lambda>v. v \<noteq> [] \<and> passes sep v) toks" and "w \<noteq> []"
  shows "SplitString_loop sep (concat (map ((#) sep) toks) @ tail) False w out
     = SplitString_loop sep tail False (last (w # toks)) (out @ butlast (w # toks))"
  using assms(3,4)
proof (induction toks arbitrary: w out)
  case Nil
  then show ?case by simp
next
  case (Cons tok toks)
  from Cons.prems have tok: "tok \<noteq> []" "passes sep tok" and rest: "list_all (\<lambda>v. v \<noteq> [] \<and> passes sep v) toks"
    by simp_all
  have "SplitString_loop sep (concat (map ((#) sep) (tok # toks)) @ tail) False w out
      = SplitString_loop sep (tok @ concat (map ((#) sep) toks) @ tail) False [] (out @ [w])"
    using Cons.prems(2) by (simp add: finish_word_def)
  also have "\<dots> = SplitString_loop sep (concat (map ((#) sep) toks) @ tail) False tok (out @ [w])"
    using tok(2) by (simp add: passes_def)
  also have "\<dots> = SplitString_loop sep tail False (last (tok # toks)) ((out @ [w]) @ butlast (tok # toks))"
    by (rule Cons.IH [OF rest tok(1)])
  finally show ?case by simp
qed

lemma SplitString_joined:
  assumes "sep \<noteq> quote" "sep \<noteq> escape"
    and "list_all (\<lambda>v. v \<noteq> [] \<and> passes sep v) toks"
  shows "SplitString (joined sep toks) sep = Inr toks"
proof (cases toks)
  case Nil
  then show ?thesis by (simp add: joined_def SplitString_def finish_word_def)
next
  case (Cons x xs)
  with assms(3) have x: "x \<noteq> []" "passes sep x" and xs: "list_all (\<lambda>v. v \<noteq> [] \<and> passes sep v) xs"
    by simp_all
  have "SplitString (joined sep toks) sep
      = SplitString_loop sep (x @ concat (map ((#) sep) xs) @ []) False [] []"
    by (simp add: Cons joined_def SplitString_def)
  also have "\<dots> = SplitString_loop sep (concat (map ((#) sep) xs) @ []) False x []"
    using x(2) unfolding passes_def by simp
  also have "\<dots> = SplitString_loop sep [] False (last (x # xs)) ([] @ butlast (x # xs))"
    by (rule SplitString_loop_tokens [OF assms(1,2) xs x(1)])
  also have "\<dots> = Inr (butlast (x # xs) @ [last (x # xs)])"
  proof -
    have "last (x # xs) \<in> set (x # xs)" by (rule last_in_set) simp
    with x(1) xs have "last (x # xs) \<noteq> []" by (auto simp: list_all_iff)
    then show ?thesis by (simp add: finish_word_def del: last.simps butlast.simps)
  qed
  finally show ?thesis using Cons by (simp del: last.simps butlast.simps)
qed

lemma SplitString_flags:
  assumes "nm \<noteq> []" "passes (CHR '' '') nm"
    and "list_all (\<lambda>v. v \<noteq> [] \<and> passes (CHR '' '') v) toks"
    and "tail = [] \<or> tail = '' ''"
  shows "SplitString (nm @ concat (map ((#) (CHR '' '')) toks) @ tail) (CHR '' '') = Inr (nm # toks)"
proof -
  have sep: "CHR '' '' \<noteq> quote" "CHR '' '' \<noteq> escape" by (simp_all add: quote_def escape_def)
  have ne: "last (nm # toks) \<noteq> []"
  proof -
    have "last (nm # toks) \<in> set (nm # toks)" by (rule last_in_set) simp
    with assms(1,3) show ?thesis by (auto simp: list_all_iff)
  qed
  have "SplitString (nm @ concat (map ((#) (CHR '' '')) toks) @ tail) (CHR '' '')
      = SplitString_loop (CHR '' '') (concat (map ((#) (CHR '' '')) toks) @ tail) False nm []"
    using assms(2) unfolding passes_def SplitString_def by simp
  also have "\<dots> = SplitString_loop (CHR '' '') tail False (last (nm # toks)) ([] @ butlast (nm # toks))"
    by (rule SplitString_loop_tokens [OF sep assms(3,1)])
  also have "\<dots> = Inr (butlast (nm # toks) @ [last (nm # toks)])"
    using assms(4) ne sep
    by (auto simp: finish_word_def simp del: last.simps butlast.simps)
  finally show ?thesis by (simp del: last.simps butlast.simps)
qed

lemma space_joined:
  "'' '' @ joined (CHR '' '') toks
     = concat (map ((#) (CHR '' '')) toks) @ (if toks = [] then '' '' else [])"
  by (cases toks) (simp_all add: joined_def)

subsection \<open>Interpreting what the stringifier writes\<close>

lemma Interpret_loop_plain:
  "quote \<notin> set v \<Longrightarrow> escape \<notin> set v \<Longrightarrow> Interpret_loop v iq False r = r @ v"
  by (induction v arbitrary: r) auto

lemma Interpret_plain:
  assumes "quote \<notin> set v" "escape \<notin> set v"
  shows "Interpret v = v"
proof (cases v)
  case Nil
  then show ?thesis by (simp add: Interpret_def)
next
  case (Cons c cs)
  with assms have nq: "\<not> IsQuoted v" by (auto simp: IsQuoted_def)
  have ne: "v \<noteq> []" using Cons by simp
  have "Interpret_loop v False False [] = v"
    using Interpret_loop_plain [OF assms, of False "[]"] by simp
  with nq ne show ?thesis by (simp add: Interpret_def)
qed

lemma IsQuoted_loop_Uninterpret: "IsQuoted_loop (Uninterpret s) False"
  using quote_neq_escape by (induction s) auto

lemma interior_Quote: "take (length (Quote u) - 2) (drop 1 (Quote u)) = u"
  by (simp add: Quote_def)

lemma IsQuoted_Quote_Uninterpret: "IsQuoted (Quote (Uninterpret s))"
proof -
  have "Quote (Uninterpret s) ! (length (Quote (Uninterpret s)) - 1) = quote"
    by (simp add: Quote_def nth_append)
  moreover have "Quote (Uninterpret s) ! 0 = quote" by (simp add: Quote_def)
  moreover have "\<not> length (Quote (Uninterpret s)) < 2" by (simp add: Quote_def)
  ultimately show ?thesis
    unfolding IsQuoted_def interior_Quote by (simp add: IsQuoted_loop_Uninterpret)
qed

lemma Interpret_Quote_Uninterpret: "Interpret (Quote (Uninterpret s)) = s"
proof -
  have "Quote (Uninterpret s) \<noteq> []" by (simp add: Quote_def)
  then show ?thesis
    unfolding Interpret_def interior_Quote
    by (simp add: IsQuoted_Quote_Uninterpret Interpret_loop_Uninterpret)
qed

lemma find_first_of_eq_None: "find_first_of s ch = None \<longleftrightarrow> ch \<notin> set s"
  by (induction s) auto

lemma set_Uninterpret: "c \<noteq> escape \<Longrightarrow> c \<in> set (Uninterpret s) \<longleftrightarrow> c \<in> set s"
  by (induction s) auto

lemma Uninterpret_Nil_iff: "Uninterpret s = [] \<longleftrightarrow> s = []"
  by (cases s) auto

lemma Uninterpret_plain: "quote \<notin> set v \<Longrightarrow> escape \<notin> set v \<Longrightarrow> Uninterpret v = v"
  by (induction v) auto

lemma StringifyAtomicType_AStr:
  "StringifyAtomicType (AStr s)
     = Inr (if CHR '' '' \<in> set s then Quote (Uninterpret s) else Uninterpret s)"
  by (simp add: StringifyAtomicType_def Let_def find_first_of_eq_None IsQuoted_Uninterpret
      set_Uninterpret escape_def)

lemma takeWhile_Nil_hd: "xs \<noteq> [] \<Longrightarrow> \<not> P (hd xs) \<Longrightarrow> takeWhile P xs = []"
  by (cases xs) auto

lemma strip_spaces_id:
  assumes "s \<noteq> []" "hd s \<noteq> CHR '' ''" "last s \<noteq> CHR '' ''"
  shows "strip_spaces s = s"
proof -
  have a: "takeWhile (\<lambda>c. c = CHR '' '') s = []"
    using assms(1,2) by (intro takeWhile_Nil_hd) auto
  have b: "takeWhile (\<lambda>c. c = CHR '' '') (rev s) = []"
    using assms(1,3) by (intro takeWhile_Nil_hd) (auto simp: hd_rev)
  show ?thesis using assms(1) by (simp add: strip_spaces_def a b)
qed

subsection \<open>Integers as text\<close>

lemma isdigit_digit_char: "d < 10 \<Longrightarrow> isdigit (digit_char d)"
  by (simp add: isdigit_def digit_char_def)

lemma of_char_digit_char: "d < 10 \<Longrightarrow> (of_char (digit_char d) :: nat) = 48 + d"
  by (simp add: digit_char_def)

lemma to_string_nat_digits: "list_all isdigit (to_string_nat n)"
  by (induction n rule: to_string_nat.induct)
     (subst to_string_nat.simps, auto simp: isdigit_digit_char)

lemma to_string_nat_nonempty: "to_string_nat n \<noteq> []"
  by (subst to_string_nat.simps) simp

lemma read_digits_append:
  "list_all isdigit xs \<Longrightarrow> d < 10 \<Longrightarrow>
   read_digits (xs @ [digit_char d]) acc = read_digits xs acc * 10 + d"
  by (induction xs arbitrary: acc) (auto simp: isdigit_digit_char of_char_digit_char)

lemma read_digits_to_string_nat: "read_digits (to_string_nat n) 0 = n"
proof (induction n rule: to_string_nat.induct)
  case (1 n)
  show ?case
  proof (cases "n < 10")
    case True
    then show ?thesis
      by (subst to_string_nat.simps) (simp add: isdigit_digit_char of_char_digit_char)
  next
    case False
    then have IH: "read_digits (to_string_nat (n div 10)) 0 = n div 10" using 1 by simp
    have "read_digits (to_string_nat n) 0
        = read_digits (to_string_nat (n div 10) @ [digit_char (n mod 10)]) 0"
      using False by (subst to_string_nat.simps) simp
    also have "\<dots> = read_digits (to_string_nat (n div 10)) 0 * 10 + n mod 10"
      by (rule read_digits_append) (simp_all add: to_string_nat_digits)
    finally show ?thesis using IH by simp
  qed
qed

lemma isdigit_not_space: "isdigit c \<Longrightarrow> \<not> isspace c"
  by (auto simp: isdigit_def isspace_def)

lemma isdigit_not_sign: "isdigit c \<Longrightarrow> c \<noteq> CHR ''-'' \<and> c \<noteq> CHR ''+''"
  by (auto simp: isdigit_def)

lemma hd_to_string_nat: "isdigit (hd (to_string_nat n))"
  using to_string_nat_digits [of n] to_string_nat_nonempty [of n]
  by (cases "to_string_nat n") simp_all

lemma extract_int64_to_string:
  assumes "- (2 ^ 63) \<le> i" "i < 2 ^ 63"
  shows "extract_int64 (to_string i) = Some i"
proof (cases "i < 0")
  case True
  have sp: "\<not> isspace (CHR ''-'')" by (simp add: isspace_def)
  have "dropWhile isspace (to_string i) = CHR ''-'' # to_string_nat (nat (- i))"
    using True sp by (simp add: to_string_def)
  then show ?thesis
    using True assms hd_to_string_nat [of "nat (- i)"] to_string_nat_nonempty [of "nat (- i)"]
    by (simp add: extract_int64_def Let_def read_digits_to_string_nat)
next
  case False
  obtain c cs where cs: "to_string_nat (nat i) = c # cs"
    using to_string_nat_nonempty [of "nat i"] by (cases "to_string_nat (nat i)") auto
  with hd_to_string_nat [of "nat i"] have c: "isdigit c" by simp
  have "dropWhile isspace (to_string i) = to_string_nat (nat i)"
    using False cs c isdigit_not_space by (simp add: to_string_def)
  moreover have "read_digits (c # cs) 0 = nat i"
    using read_digits_to_string_nat [of "nat i"] cs by simp
  ultimately show ?thesis
    using False assms cs c isdigit_not_sign [OF c]
    by (simp add: extract_int64_def Let_def del: read_digits.simps)
qed

lemma parse_integer_to_string:
  "- (2 ^ 63) \<le> i \<Longrightarrow> i < 2 ^ 63 \<Longrightarrow> parse_integer (to_string i) = Inr i"
  by (simp add: parse_integer_def extract_int64_to_string)

lemma to_string_plain:
  "c \<in> set (to_string i) \<Longrightarrow> isdigit c \<or> c = CHR ''-''"
  using to_string_nat_digits [of "nat i"] to_string_nat_digits [of "nat (- i)"]
  by (auto simp: to_string_def list_all_iff split: if_splits)

lemma to_string_nonempty: "to_string i \<noteq> []"
  by (simp add: to_string_def to_string_nat_nonempty)

lemma to_string_no_special:
  "CHR '' '' \<notin> set (to_string i)" "quote \<notin> set (to_string i)" "escape \<notin> set (to_string i)"
  "CHR '','' \<notin> set (to_string i)"
proof -
  have "c \<notin> set (to_string i)" if "\<not> isdigit c" "c \<noteq> CHR ''-''" for c
    using to_string_plain [of c i] that by blast
  then show "CHR '' '' \<notin> set (to_string i)" "quote \<notin> set (to_string i)"
    "escape \<notin> set (to_string i)" "CHR '','' \<notin> set (to_string i)"
    by (simp_all add: isdigit_def quote_def escape_def)
qed


lemma sep_ok: "CHR '','' \<noteq> quote" "CHR '','' \<noteq> escape" "CHR '' '' \<noteq> quote" "CHR '' '' \<noteq> escape"
  by (simp_all add: quote_def escape_def)

subsection \<open>Arrays as text\<close>

lemma Interpret_loop_Uninterpret_append:
  "Interpret_loop (Uninterpret s @ rest) False False r = Interpret_loop rest False False (r @ s)"
  using quote_neq_escape by (induction s arbitrary: r) auto

lemma Interpret_loop_elements:
  "Interpret_loop (concat (map ((#) (CHR '','')) (map Uninterpret ms))) False False r
     = r @ concat (map ((#) (CHR '','')) ms)"
  using sep_ok(1,2) by (induction ms arbitrary: r) (simp_all add: Interpret_loop_Uninterpret_append)

lemma hd_Uninterpret: "s \<noteq> [] \<Longrightarrow> hd (Uninterpret s) \<noteq> quote"
  using quote_neq_escape by (cases s) auto

lemma IsQuoted_hd: "s \<noteq> [] \<Longrightarrow> hd s \<noteq> quote \<Longrightarrow> \<not> IsQuoted s"
  by (cases s) (auto simp: IsQuoted_def)

lemma Interpret_elements:
  "Interpret (joined (CHR '','') (map Uninterpret ms)) = joined (CHR '','') ms"
proof (cases ms)
  case Nil
  then show ?thesis by (simp add: joined_def Interpret_def)
next
  case (Cons m ms')
  let ?s = "joined (CHR '','') (map Uninterpret ms)"
  have s: "?s = Uninterpret m @ concat (map ((#) (CHR '','')) (map Uninterpret ms'))"
    by (simp add: Cons joined_def)
  have loop: "Interpret_loop ?s False False [] = joined (CHR '','') ms"
    unfolding s Interpret_loop_Uninterpret_append Interpret_loop_elements
    by (simp add: Cons joined_def)
  show ?thesis
  proof (cases "?s = []")
    case True
    with s have "m = []" "ms' = []" by (auto simp: Uninterpret_Nil_iff)
    with Cons show ?thesis by (simp add: joined_def Interpret_def)
  next
    case False
    have "hd ?s \<noteq> quote"
    proof (cases "m = []")
      case True
      with False s obtain x xs where "ms' = x # xs" by (cases ms') auto
      with True s show ?thesis using sep_ok(1) by simp
    next
      case nm: False
      then have "Uninterpret m \<noteq> []" by (simp add: Uninterpret_Nil_iff)
      then have "hd ?s = hd (Uninterpret m)" unfolding s by simp
      with hd_Uninterpret [OF nm] show ?thesis by simp
    qed
    with False have "\<not> IsQuoted ?s" by (rule IsQuoted_hd)
    with False loop show ?thesis by (simp add: Interpret_def)
  qed
qed

lemma token_scan_elements:
  "list_all (\<lambda>m. CHR '' '' \<notin> set m) ms \<Longrightarrow>
   token_scan (CHR '' '') (concat (map ((#) (CHR '','')) (map Uninterpret ms)) @ rest) False
     = token_scan (CHR '' '') rest False"
  using sep_ok by (induction ms) (simp_all add: token_scan_Uninterpret)

lemma token_scan_joined:
  assumes "list_all (\<lambda>m. CHR '' '' \<notin> set m) ms"
  shows "token_scan (CHR '' '') (joined (CHR '','') (map Uninterpret ms) @ rest) False
     = token_scan (CHR '' '') rest False"
proof (cases ms)
  case Nil
  then show ?thesis by (simp add: joined_def)
next
  case (Cons m ms')
  with assms have m: "CHR '' '' \<notin> set m" and r: "list_all (\<lambda>m. CHR '' '' \<notin> set m) ms'"
    by simp_all
  show ?thesis
    using sep_ok m token_scan_elements [OF r]
    by (simp add: Cons joined_def token_scan_Uninterpret)
qed

lemma joined_Nil_iff: "joined sep xs = [] \<longleftrightarrow> xs = [] \<or> xs = [] # []"
  by (cases xs) (auto simp: joined_def)

subsection \<open>Plain values are written and read back\<close>

lemma plain_wordD:
  assumes "plain_word w"
  shows "w \<noteq> []" "CHR '' '' \<notin> set w" "CHR '','' \<notin> set w" "quote \<notin> set w" "escape \<notin> set w"
  using assms by (auto simp: plain_word_def list_all_iff)

lemma no_space_strip: "s \<noteq> [] \<Longrightarrow> CHR '' '' \<notin> set s \<Longrightarrow> strip_spaces s = s"
proof (rule strip_spaces_id)
  assume s: "s \<noteq> []" "CHR '' '' \<notin> set s"
  then have "hd s \<in> set s" "last s \<in> set s" by simp_all
  with s(2) show "hd s \<noteq> CHR '' ''" "last s \<noteq> CHR '' ''" by metis+
qed

lemma plain_elem_cases:
  assumes "plain_elem elem e"
  obtains i where "elem = VInt" "e = AInt i" "- (2 ^ 63) \<le> i" "i < 2 ^ 63"
  | b where "elem = VBool" "e = ABool b"
  | s where "elem = VStr" "e = AStr s" "s \<noteq> []" "CHR '' '' \<notin> set s" "CHR '','' \<notin> set s"
  using assms by (cases elem; cases e) auto

lemma elem_Stringify: "plain_elem elem e \<Longrightarrow> StringifyAtomicType e = Inr (elem_text e)"
  by (erule plain_elem_cases)
     (simp_all add: StringifyAtomicType_AStr elem_text_def, simp_all add: StringifyAtomicType_def)

lemma elem_text_chars:
  assumes "plain_elem elem e"
  shows "elem_text e \<noteq> []" "CHR '' '' \<notin> set (elem_text e)" "CHR '','' \<notin> set (elem_text e)"
    "CHR '','' \<notin> set (Uninterpret (elem_text e))" "passes (CHR '','') (elem_text e)"
proof -
  have e: "CHR '' '' \<noteq> escape" "CHR '','' \<noteq> escape" by (simp_all add: escape_def)
  from assms show "elem_text e \<noteq> []"
    by (rule plain_elem_cases) (simp_all add: elem_text_def to_string_nonempty Uninterpret_Nil_iff)
  from assms show "CHR '' '' \<notin> set (elem_text e)"
    by (rule plain_elem_cases) (simp_all add: elem_text_def to_string_no_special set_Uninterpret e)
  from assms show c: "CHR '','' \<notin> set (elem_text e)"
    by (rule plain_elem_cases) (simp_all add: elem_text_def to_string_no_special set_Uninterpret e)
  then show "CHR '','' \<notin> set (Uninterpret (elem_text e))" by (simp add: set_Uninterpret e)
  from assms show "passes (CHR '','') (elem_text e)"
    by (rule plain_elem_cases)
       (simp_all add: elem_text_def passes_plain to_string_no_special passes_Uninterpret sep_ok)
qed

lemma elem_parse: "plain_elem elem e \<Longrightarrow> ParseType_str fs (elem_text e) elem = Some (Inr e)"
  by (erule plain_elem_cases)
     (simp_all add: elem_text_def Interpret_plain to_string_no_special parse_integer_to_string
        Interpret_of_Uninterpret no_space_strip)

lemma StringifyArray_loop_plain:
  "list_all (plain_elem elem) es \<Longrightarrow>
   StringifyArray_loop es acc = Inr (acc @ map Uninterpret (map elem_text es))"
proof (induction es arbitrary: acc)
  case Nil
  then show ?case by simp
next
  case (Cons e es)
  then have e: "plain_elem elem e" by simp
  have "find_first_of (Uninterpret (elem_text e)) (CHR '','') = None"
    using elem_text_chars(4) [OF e] by (simp add: find_first_of_eq_None)
  with Cons show ?case by (simp add: elem_Stringify [OF e])
qed

lemma StringifyArray_plain:
  "list_all (plain_elem elem) es \<Longrightarrow>
   StringifyArray es = Inr (joined (CHR '','') (map Uninterpret (map elem_text es)))"
  by (simp add: StringifyArray_def StringifyArray_loop_plain JoinString_def sep_ok
      JoinString_loop_joined)

lemma mapM_res_elems:
  "list_all (plain_elem elem) es \<Longrightarrow>
   mapM_res (\<lambda>substr. ParseType_str fs substr elem) (map elem_text es) = Some (Inr es)"
  by (induction es) (simp_all add: elem_parse)

lemma ParseType_str_elems:
  assumes "list_all (plain_elem elem) es"
  shows "ParseType_str fs (joined (CHR '','') (map Uninterpret (map elem_text es))) (VArray elem)
     = Some (Inr (AArray es))"
proof -
  define ms where "ms = map elem_text es"
  have "SplitString (joined (CHR '','') ms) (CHR '','') = Inr ms"
    unfolding ms_def using assms
    by (intro SplitString_joined sep_ok) (auto simp: list_all_iff elem_text_chars)
  moreover have "mapM_res (\<lambda>substr. ParseType_str fs substr elem) ms = Some (Inr es)"
    unfolding ms_def by (rule mapM_res_elems [OF assms])
  ultimately have "ParseType_str fs (joined (CHR '','') (map Uninterpret ms)) (VArray elem)
     = Some (Inr (AArray es))"
    by (simp add: Interpret_elements)
  then show ?thesis by (simp only: ms_def)
qed

lemma rendered_scalar:
  "rendered (AInt i) = Inr (to_string i)"
  "rendered (ABool b) = Inr (to_string (if b then 1 else 0))"
  "rendered (AStr s) = Inr (if CHR '' '' \<in> set s then Quote (Uninterpret s) else Uninterpret s)"
  by (simp_all add: rendered_def StringifyAtomicType_AStr, simp_all add: StringifyAtomicType_def)

lemma rendered_array:
  "list_all (plain_elem elem) es \<Longrightarrow>
   rendered (AArray es) = Inr (joined (CHR '','') (map Uninterpret (map elem_text es)))"
  by (simp only: rendered_def Any.case StringifyArray_plain)

lemma plain_value_reads:
  assumes "plain_value info v"
  shows "\<exists>r. rendered v = Inr r \<and> r \<noteq> [] \<and>
           (\<forall>rest. token_scan (CHR '' '') (r @ rest) False = token_scan (CHR '' '') rest False) \<and>
           ParseType_str fs r info = Some (Inr v)"
proof (cases info; cases v)
  fix i assume a: "info = VInt" "v = AInt i"
  with assms have i: "- (2 ^ 63) \<le> i" "i < 2 ^ 63" by simp_all
  show ?thesis
    unfolding a rendered_scalar
    by (simp add: to_string_nonempty token_scan_plain to_string_no_special Interpret_plain
        parse_integer_to_string [OF i])
next
  fix b assume a: "info = VBool" "v = ABool b"
  have i: "- (2 ^ 63) \<le> (if b then 1 else 0 :: int)" "(if b then 1 else 0 :: int) < 2 ^ 63"
    by simp_all
  show ?thesis
    unfolding a rendered_scalar
    using parse_integer_to_string [OF i]
    by (simp add: to_string_nonempty token_scan_plain to_string_no_special Interpret_plain)
next
  fix s assume a: "info = VStr" "v = AStr s"
  with assms have s: "s \<noteq> []" "hd s \<noteq> CHR '' ''" "last s \<noteq> CHR '' ''" by simp_all
  show ?thesis
  proof (cases "CHR '' '' \<in> set s")
    case True
    have "Quote (Uninterpret s) \<noteq> []" by (simp add: Quote_def)
    then show ?thesis
      unfolding a rendered_scalar using True
      by (simp add: token_scan_Quote_Uninterpret sep_ok Interpret_Quote_Uninterpret
          strip_spaces_id [OF s])
  next
    case False
    then show ?thesis
      unfolding a rendered_scalar using s(1)
      by (simp add: token_scan_Uninterpret sep_ok Interpret_of_Uninterpret Uninterpret_Nil_iff
          strip_spaces_id [OF s])
  qed
next
  fix elem es assume a: "info = VArray elem" "v = AArray es"
  with assms have es: "es \<noteq> []" "list_all (plain_elem elem) es" by simp_all
  let ?r = "joined (CHR '','') (map Uninterpret (map elem_text es))"
  have ne: "?r \<noteq> []"
    using es elem_text_chars(1) by (cases es) (auto simp: joined_def Uninterpret_Nil_iff)
  have sp: "list_all (\<lambda>m. CHR '' '' \<notin> set m) (map elem_text es)"
    using es(2) elem_text_chars(2) by (auto simp: list_all_iff)
  have p: "ParseType_str fs ?r (VArray elem) = Some (Inr (AArray es))"
    by (rule ParseType_str_elems [OF es(2)])
  show ?thesis
    unfolding a rendered_array [OF es(2)]
    using ne token_scan_joined [OF sp] p by blast
qed (use assms in simp_all)

subsection \<open>What the string parser returns, the value parser accepts\<close>

lemma mapM_res_Some_iff:
  "mapM_res f xs = Some (Inr ys) \<longleftrightarrow> list_all2 (\<lambda>x y. f x = Some (Inr y)) xs ys"
proof (induction xs arbitrary: ys)
  case Nil
  then show ?case by auto
next
  case (Cons x xs)
  show ?case
    by (cases ys) (auto simp: bind_res_eq_Some_Inr Cons.IH)
qed

lemma ParseType_str_callback:
  "ParseType_str (\<lambda>s. None) s info = Some (Inr v) \<Longrightarrow> ParseType_str fs s info = Some (Inr v)"
proof (induction info arbitrary: s v)
  case (VArray elem)
  from VArray.prems obtain subs res where
    subs: "SplitString (Interpret s) (CHR '','') = Inr subs"
    and res: "mapM_res (\<lambda>substr. ParseType_str (\<lambda>s. None) substr elem) subs = Some (Inr res)"
    and v: "v = AArray res"
    by (auto simp: bind_res_eq_Some_Inr split: sum.splits)
  from res have "list_all2 (\<lambda>x y. ParseType_str (\<lambda>s. None) x elem = Some (Inr y)) subs res"
    by (simp add: mapM_res_Some_iff)
  then have "list_all2 (\<lambda>x y. ParseType_str fs x elem = Some (Inr y)) subs res"
    by (rule list_all2_mono) (rule VArray.IH)
  then have "mapM_res (\<lambda>substr. ParseType_str fs substr elem) subs = Some (Inr res)"
    by (simp add: mapM_res_Some_iff)
  with subs v show ?case by simp
qed simp_all

lemma ParseType_str_accepted:
  "ParseType_str fs s info = Some (Inr v) \<Longrightarrow> ParseType_any fs' fc v info = Some (Inr v)"
proof (induction info arbitrary: s v)
  case VInt
  then show ?case by (auto split: sum.splits)
next
  case VBool
  then show ?case by (auto split: sum.splits)
next
  case VStr
  then show ?case by auto
next
  case VTarget
  then show ?case by (auto simp: bind_res_eq_Some_Inr ParseType_target_def)
next
  case (VArray elem)
  from VArray.prems obtain subs res where
    res: "mapM_res (\<lambda>substr. ParseType_str fs substr elem) subs = Some (Inr res)"
    and v: "v = AArray res"
    by (auto simp: bind_res_eq_Some_Inr split: sum.splits)
  from res have "list_all2 (\<lambda>x y. ParseType_str fs x elem = Some (Inr y)) subs res"
    by (simp add: mapM_res_Some_iff)
  then have "list_all2 (\<lambda>x y. ParseType_any fs' fc y elem = Some (Inr y)) subs res"
    by (rule list_all2_mono) (rule VArray.IH)
  then have "\<forall>y \<in> set res. ParseType_any fs' fc y elem = Some (Inr y)"
    by (auto simp: list_all2_conv_all_nth in_set_conv_nth)
  then have "list_all2 (\<lambda>x y. ParseType_any fs' fc x elem = Some (Inr y)) res res"
    by (simp add: list_all2_same)
  then have "mapM_res (\<lambda>e. ParseType_any fs' fc e elem) res = Some (Inr res)"
    by (simp add: mapM_res_Some_iff)
  with v show ?case by simp
qed simp_all

subsection \<open>The output of the stringifier\<close>

lemma sorted_attrs_set:
  assumes "distinct (map fst a)"
  shows "set (sorted_attrs a) = set a"
proof -
  have "(key, the (map_of a key)) \<in> set a" if "key \<in> fst ` set a" for key
  proof -
    from that obtain v where "(key, v) \<in> set a" by auto
    with assms have "map_of a key = Some v" by simp
    with \<open>(key, v) \<in> set a\<close> show ?thesis by simp
  qed
  moreover have "kv \<in> (\<lambda>key. (key, the (map_of a key))) ` fst ` set a" if "kv \<in> set a" for kv
  proof -
    obtain key v where kv: "kv = (key, v)" by (cases kv)
    with that assms have "map_of a key = Some v" by simp
    with that kv show ?thesis by force
  qed
  ultimately show ?thesis by (auto simp: sorted_attrs_def)
qed

lemma sorted_attrs_fst: "map fst (sorted_attrs a) = sort (map fst a)"
  by (simp add: sorted_attrs_def comp_def)

lemma sorted_attrs_distinct: "distinct (map fst a) \<Longrightarrow> distinct (map fst (sorted_attrs a))"
  by (simp add: sorted_attrs_fst)

lemma sorted_attrs_map_of:
  assumes "distinct (map fst a)"
  shows "map_of (sorted_attrs a) = map_of a"
  using assms sorted_attrs_set [OF assms] sorted_attrs_distinct [OF assms]
  by (intro map_of_inject_set [THEN iffD2]) auto

lemma written_set: "distinct (map fst a) \<Longrightarrow> set (written a) = {kv \<in> set a. \<not> silent (snd kv)}"
  by (auto simp: written_def sorted_attrs_set)

lemma written_distinct: "distinct (map fst a) \<Longrightarrow> distinct (map fst (written a))"
  unfolding written_def by (intro distinct_map_filter sorted_attrs_distinct)

lemma written_map_of:
  assumes "distinct (map fst a)"
  shows "map_of (written a) x
     = (case map_of a x of None \<Rightarrow> None | Some v \<Rightarrow> if silent v then None else Some v)"
proof (cases "map_of a x")
  case None
  then have "x \<notin> fst ` set a" by (simp add: map_of_eq_None_iff)
  then have "x \<notin> fst ` set (written a)" using written_set [OF assms] by auto
  then have "map_of (written a) x = None" by (simp add: map_of_eq_None_iff)
  with None show ?thesis by simp
next
  case (Some v)
  then have m: "(x, v) \<in> set a" by (rule map_of_SomeD)
  show ?thesis
  proof (cases "silent v")
    case True
    have "x \<notin> fst ` set (written a)"
    proof
      assume "x \<in> fst ` set (written a)"
      then obtain v' where v': "(x, v') \<in> set a" "\<not> silent v'"
        using written_set [OF assms] by auto
      with assms Some have "v' = v" by simp
      with True v'(2) show False by simp
    qed
    then have "map_of (written a) x = None" by (simp add: map_of_eq_None_iff)
    with Some True show ?thesis by simp
  next
    case False
    with m have "(x, v) \<in> set (written a)" using written_set [OF assms] by simp
    with written_distinct [OF assms] have "map_of (written a) x = Some v" by simp
    with Some False show ?thesis by simp
  qed
qed

lemma StringifyAttrsToRaw_loop_step:
  assumes "map_of a key = Some v" "v = ANone \<or> rendered v = Inr r"
  shows "StringifyAttrsToRaw_loop a (key # ks) acc
     = StringifyAttrsToRaw_loop a ks (if silent v then acc else acc @ [flag (key, v)])"
proof (cases "v = ANone")
  case True
  with assms(1) show ?thesis by (simp add: silent_def)
next
  case False
  with assms(2) have r: "rendered v = Inr r" by simp
  then have "(case v of AArray array \<Rightarrow> StringifyArray array | _ \<Rightarrow> StringifyAtomicType v) = Inr r"
    by (simp add: rendered_def)
  with False assms(1) r show ?thesis
    by (cases v) (simp_all add: silent_def flag_def render_def)
qed

lemma StringifyAttrsToRaw_loop_written:
  assumes "\<forall>kv \<in> set a. snd kv = ANone \<or> (\<exists>r. rendered (snd kv) = Inr r)"
    "distinct (map fst a)" "set ks \<subseteq> fst ` set a"
  shows "StringifyAttrsToRaw_loop a ks acc
     = Inr (acc @ map flag (filter (\<lambda>kv. \<not> silent (snd kv))
                              (map (\<lambda>key. (key, the (map_of a key))) ks)))"
  using assms(3)
proof (induction ks arbitrary: acc)
  case Nil
  then show ?case by simp
next
  case (Cons key ks)
  then obtain v where v: "(key, v) \<in> set a" by auto
  with assms(2) have m: "map_of a key = Some v" by simp
  from v assms(1) obtain r where "v = ANone \<or> rendered v = Inr r" by fastforce
  from StringifyAttrsToRaw_loop_step [OF m this] Cons m show ?case by simp
qed

lemma StringifyAttrsToRaw_written:
  assumes "\<forall>kv \<in> set a. snd kv = ANone \<or> (\<exists>r. rendered (snd kv) = Inr r)" "distinct (map fst a)"
  shows "StringifyAttrsToRaw a = Inr (joined (CHR '' '') (map flag (written a)))"
proof -
  have "StringifyAttrsToRaw_loop a (sort (map fst a)) []
      = Inr ([] @ map flag (filter (\<lambda>kv. \<not> silent (snd kv))
                              (map (\<lambda>key. (key, the (map_of a key))) (sort (map fst a)))))"
    by (rule StringifyAttrsToRaw_loop_written [OF assms]) simp
  then show ?thesis
    by (simp add: StringifyAttrsToRaw_def JoinString_def sep_ok JoinString_loop_joined
        sorted_attrs_def written_def)
qed

lemma str_written:
  assumes "\<forall>kv \<in> set (attrs t). snd kv = ANone \<or> (\<exists>r. rendered (snd kv) = Inr r)"
    "distinct (map fst (attrs t))"
  shows "str t = Inr (kind t
           @ concat (map ((#) (CHR '' '')) (keys_tokens (keys t) @ map flag (written (attrs t))))
           @ (if written (attrs t) = [] then '' '' else []))"
proof -
  have a: "StringifyAttrsToRaw (attrs t) = Inr (joined (CHR '' '') (map flag (written (attrs t))))"
    by (rule StringifyAttrsToRaw_written [OF assms])
  have b: "(if keys t \<noteq> [] then '' -keys='' @ str_keys (keys t) True else [])
      = concat (map ((#) (CHR '' '')) (keys_tokens (keys t)))"
    by (simp add: keys_tokens_def)
  have c: "'' '' @ joined (CHR '' '') (map flag (written (attrs t)))
      = concat (map ((#) (CHR '' '')) (map flag (written (attrs t))))
        @ (if written (attrs t) = [] then '' '' else [])"
    using space_joined [of "map flag (written (attrs t))"] by simp
  show ?thesis
    unfolding str_def a sum.case b c by simp
qed

subsection \<open>The flags read back\<close>

lemma RemovePrefixDashes_flag:
  assumes "key \<noteq> []" "hd key \<noteq> CHR ''-''"
  shows "RemovePrefixDashes (CHR ''-'' # key @ rest) = Inr (key @ rest)"
proof -
  have "takeWhile (\<lambda>c. c = CHR ''-'') (key @ rest) = []"
    using assms by (intro takeWhile_Nil_hd) auto
  then show ?thesis using assms by (simp add: RemovePrefixDashes_def)
qed

lemma ParseKVPair_flag:
  "CHR ''='' \<notin> set key \<Longrightarrow> key \<noteq> [] \<Longrightarrow> r \<noteq> [] \<Longrightarrow>
   ParseKVPair (key @ CHR ''='' # r) s_next = Inr (1, key, r)"
  by (simp add: ParseKVPair_def find_first_of_append)

lemma FromRawString_loop_step:
  assumes "key \<noteq> []" "hd key \<noteq> CHR ''-''" "CHR ''='' \<notin> set key" "r \<noteq> []"
    "parse key r = Some (Inr v)" "key \<notin> fst ` set cfg"
  shows "FromRawString_loop parse ((''-'' @ key @ ''='' @ r) # toks) cfg
     = FromRawString_loop parse toks (cfg @ [(key, v)])"
proof -
  have a: "RemovePrefixDashes (CHR ''-'' # key @ CHR ''='' # r) = Inr (key @ CHR ''='' # r)"
    by (rule RemovePrefixDashes_flag [OF assms(1,2)])
  have b: "ParseKVPair (key @ CHR ''='' # r) s_next = Inr (1, key, r)" for s_next
    by (rule ParseKVPair_flag [OF assms(3,1,4)])
  have c: "\<not> count cfg key"
    using assms(6) by (simp add: count_def map_of_eq_None_iff)
  have "FromRawString_loop parse ((''-'' @ key @ ''='' @ r) # toks) cfg
      = bind_res (parse key r)
        (\<lambda>v'. FromRawString_loop parse (drop (1 - 1) toks) (cfg @ [(key, v')]))"
    by (subst FromRawString_loop.simps(2)) (simp add: a b c Let_def del: FromRawString_loop.simps)
  also have "\<dots> = FromRawString_loop parse toks (cfg @ [(key, v)])"
    by (simp add: assms(5) del: FromRawString_loop.simps)
  finally show ?thesis .
qed

lemma FromRawString_loop_flags:
  assumes "list_all (\<lambda>kv. fst kv \<noteq> [] \<and> hd (fst kv) \<noteq> CHR ''-'' \<and> CHR ''='' \<notin> set (fst kv) \<and>
             render (snd kv) \<noteq> [] \<and> parse (fst kv) (render (snd kv)) = Some (Inr (snd kv))) es"
    "distinct (map fst es)" "fst ` set es \<inter> fst ` set cfg = {}"
  shows "FromRawString_loop parse (map flag es) cfg = Some (Inr (cfg @ es))"
  using assms
proof (induction es arbitrary: cfg)
  case Nil
  then show ?case by simp
next
  case (Cons kv es)
  obtain key v where kv: "kv = (key, v)" by (cases kv)
  from Cons.prems(1) kv have e: "key \<noteq> []" "hd key \<noteq> CHR ''-''" "CHR ''='' \<notin> set key"
    "render v \<noteq> []" "parse key (render v) = Some (Inr v)"
    by simp_all
  have k: "key \<notin> fst ` set cfg" using Cons.prems(3) kv by auto
  have d: "FromRawString_loop parse (map flag es) (cfg @ [kv]) = Some (Inr ((cfg @ [kv]) @ es))"
    using Cons.prems by (intro Cons.IH) auto
  have "FromRawString_loop parse (map flag (kv # es)) cfg
      = FromRawString_loop parse ((''-'' @ key @ ''='' @ render v) # map flag es) cfg"
    by (simp add: flag_def kv)
  also have "\<dots> = FromRawString_loop parse (map flag es) (cfg @ [(key, v)])"
    by (rule FromRawString_loop_step [where parse = parse, OF e k])
  finally show ?case using d kv by simp
qed

subsection \<open>The assembler on the parsed configuration\<close>

lemma delete_absent: "x \<notin> fst ` set al \<Longrightarrow> AList.delete x al = al"
  by (induction al) auto

lemma not_count: "x \<notin> fst ` set m \<Longrightarrow> \<not> count m x"
  by (simp add: count_def map_of_eq_None_iff)

lemma map_of_absent: "x \<notin> fst ` set m \<Longrightarrow> map_of m x = None"
  by (simp add: map_of_eq_None_iff)

lemma spec_dedup_distinct:
  "distinct xs \<Longrightarrow> set ys \<subseteq> set xs \<Longrightarrow> spec_dedup (xs @ ys) = xs"
proof (induction xs arbitrary: ys)
  case Nil
  then show ?case by simp
next
  case (Cons x xs)
  have "filter (\<lambda>y. y \<noteq> x) xs = xs" using Cons.prems(1) by (auto intro: filter_True)
  moreover have "set (filter (\<lambda>y. y \<noteq> x) ys) \<subseteq> set xs" using Cons.prems(2) by auto
  ultimately show ?case using Cons.IH [of "filter (\<lambda>y. y \<noteq> x) ys"] Cons.prems(1) by simp
qed

lemma reserved_keys_mem:
  "''kind'' \<in> set reserved_keys" "''tag'' \<in> set reserved_keys" "''keys'' \<in> set reserved_keys"
  "''host'' \<in> set reserved_keys" "''features'' \<in> set reserved_keys"
  "''from_device'' \<in> set reserved_keys"
  by (simp_all add: reserved_keys_def)

lemma not_reserved:
  assumes "\<forall>kv \<in> set es. fst kv \<notin> set reserved_keys"
  shows "''kind'' \<notin> fst ` set es" "''tag'' \<notin> fst ` set es" "''keys'' \<notin> fst ` set es"
    "''host'' \<notin> fst ` set es" "''features'' \<notin> fst ` set es" "''from_device'' \<notin> fst ` set es"
proof -
  have "x \<notin> fst ` set es" if "x \<in> set reserved_keys" for x
    using assms that by auto
  with reserved_keys_mem show "''kind'' \<notin> fst ` set es" "''tag'' \<notin> fst ` set es"
    "''keys'' \<notin> fst ` set es" "''host'' \<notin> fst ` set es" "''features'' \<notin> fst ` set es"
    "''from_device'' \<notin> fst ` set es"
    by blast+
qed

lemma map_of_set_if_absent:
  "map_of (set_if_absent a d) x
     = (case map_of a x of Some v \<Rightarrow> Some v | None \<Rightarrow> if x = fst d then Some (snd d) else None)"
  by (cases d) (auto simp: set_if_absent_def count_def map_add_def split: option.splits)

lemma map_of_foldl_set_if_absent:
  "map_of (foldl set_if_absent a ds) x
     = (case map_of a x of Some v \<Rightarrow> Some v | None \<Rightarrow> map_of ds x)"
proof (induction ds arbitrary: a)
  case Nil
  then show ?case by (simp split: option.splits)
next
  case (Cons d ds)
  obtain key v where d: "d = (key, v)" by (cases d)
  show ?case
    by (simp add: Cons.IH map_of_set_if_absent d split: option.splits)
qed

lemma reparsed_attrs_map:
  assumes "distinct (map fst a)"
    and "\<forall>kv \<in> set a. silent (snd kv) \<longrightarrow> map_of ds (fst kv) = Some (snd kv)"
    and "list_all (\<lambda>kd. count a (fst kd)) ds"
  shows "map_of (foldl set_if_absent (written a) ds) = map_of a"
proof
  fix x
  show "map_of (foldl set_if_absent (written a) ds) x = map_of a x"
  proof (cases "map_of a x")
    case None
    have "map_of ds x = None"
    proof (rule ccontr)
      assume "map_of ds x \<noteq> None"
      then obtain v where "(x, v) \<in> set ds" by (auto dest: map_of_SomeD)
      with assms(3) have "count a x" by (auto simp: list_all_iff)
      with None show False by (simp add: count_def)
    qed
    with None show ?thesis
      by (simp add: map_of_foldl_set_if_absent written_map_of [OF assms(1)])
  next
    case (Some v)
    then have "(x, v) \<in> set a" by (rule map_of_SomeD)
    with assms(2) have "silent v \<Longrightarrow> map_of ds x = Some v" by auto
    with Some show ?thesis
      by (auto simp: map_of_foldl_set_if_absent written_map_of [OF assms(1)])
  qed
qed

lemma mapM_res_id: "\<forall>x \<in> set xs. f x = Some (Inr x) \<Longrightarrow> mapM_res f xs = Some (Inr xs)"
  by (simp add: mapM_res_Some_iff list_all2_same)

lemma reads_backD:
  assumes "reads_back k kv"
  obtains r info where "fst kv \<noteq> []" "hd (fst kv) \<noteq> CHR ''-''" "CHR ''='' \<notin> set (fst kv)"
    "fst kv \<notin> set reserved_keys" "rendered (snd kv) = Inr r" "r \<noteq> []"
    "token_scan (CHR '' '') (''-'' @ fst kv @ ''='' @ r) False"
    "map_of (key2vtype k) (fst kv) = Some info"
    "ParseType_str (\<lambda>s. None) r info = Some (Inr (snd kv))"
  using assms by (auto simp: reads_back_def split: sum.splits option.splits)

lemma mapM_res_attrs:
  assumes "\<forall>kv \<in> set es. reads_back k kv"
  shows "mapM_res (FromConfig_attr fs fc k) es = Some (Inr es)"
proof (rule mapM_res_id, rule ballI)
  fix kv assume "kv \<in> set es"
  with assms have "reads_back k kv" by simp
  then obtain r info where i: "map_of (key2vtype k) (fst kv) = Some info"
    and p: "ParseType_str (\<lambda>s. None) r info = Some (Inr (snd kv))"
    by (rule reads_backD)
  from ParseType_str_accepted [OF p] have "ParseType_any fs fc (snd kv) info = Some (Inr (snd kv))" .
  with i show "FromConfig_attr fs fc k kv = Some (Inr kv)"
    by (simp add: FromConfig_attr_def FindTypeInfo_def)
qed

lemma FromConfig_keys_canonical:
  assumes es: "''keys'' \<notin> fst ` set es"
    and ks: "distinct ks" "list_all (\<lambda>d. d \<in> set ks) (device_key es)"
    and ke: "ks = [] \<Longrightarrow> default_keys k = []"
  shows "FromConfig_keys k (keys_entry ks @ es) = Inr (ks, es)"
proof (cases "ks = []")
  case True
  with ks(2) have d: "device_key es = []" by (cases "device_key es") simp_all
  have "keys_entry ks @ es = es" using True by (simp add: keys_entry_def)
  moreover have "map_of es ''keys'' = None" using es by (simp add: map_of_eq_None_iff)
  moreover have "AList.delete ''keys'' es = es" using es by (rule delete_absent)
  moreover have "(case map_of es ''device'' of Some (AStr d) \<Rightarrow> [d] | _ \<Rightarrow> []) = []"
    using d by (simp add: device_key_def)
  ultimately show ?thesis
    using True ke by (simp add: FromConfig_keys_def count_def DeduplicateKeys_spec)
next
  case False
  have a: "spec_dedup (ks @ device_key es) = ks"
    using ks by (intro spec_dedup_distinct) (auto simp: list_all_iff)
  have b: "AList.delete ''keys'' es = es" using es by (rule delete_absent)
  have c: "map the_str (map AStr ks) = ks" by (simp add: comp_def the_str_def)
  have d: "list_all is_str (map AStr ks)" by (simp add: list_all_iff is_str_def)
  have e: "keys_entry ks @ es = (''keys'', AArray (map AStr ks)) # es"
    using False by (simp add: keys_entry_def)
  have f: "(case map_of ((''keys'', AArray (map AStr ks)) # es) ''device'' of
              Some (AStr d) \<Rightarrow> [d] | _ \<Rightarrow> []) = device_key es"
    by (simp add: device_key_def)
  show ?thesis
    unfolding e FromConfig_keys_def Let_def f
    using a b c d by (simp add: count_def DeduplicateKeys_spec)
qed

lemma FromConfig_kind_hooks:
  assumes k: "kinds env nm = Some k" "\<not> (preprocessor k \<noteq> None \<and> target_parser k \<noteq> None)"
    and p: "case target_parser k of
              None \<Rightarrow> True
            | Some parser \<Rightarrow>
                (case parser ((''kind'', AStr nm) # cfg) of
                   Inl e \<Rightarrow> False
                 | Inr cfg' \<Rightarrow>
                     AList.delete ''features'' cfg' = (''kind'', AStr nm) # cfg \<and>
                     (case map_of cfg' ''features'' of
                        None \<Rightarrow> True
                      | Some (AMap m) \<Rightarrow> list_all (\<lambda>kv. is_str (fst kv)) m
                      | Some _ \<Rightarrow> False))"
    and c: "''kind'' \<notin> fst ` set cfg"
  shows "\<exists>feats. FromConfig_kind env ((''kind'', AStr nm) # cfg) = Inr (k, feats, cfg)"
proof (cases "target_parser k")
  case None
  with k delete_absent [OF c] show ?thesis
    by (simp add: FromConfig_kind_def GetTargetKind_def)
next
  case (Some parser)
  with p obtain cfg' where cfg': "parser ((''kind'', AStr nm) # cfg) = Inr cfg'"
    and d: "AList.delete ''features'' cfg' = (''kind'', AStr nm) # cfg"
    and f: "case map_of cfg' ''features'' of
              None \<Rightarrow> True
            | Some (AMap m) \<Rightarrow> list_all (\<lambda>kv. is_str (fst kv)) m
            | Some _ \<Rightarrow> False"
    by (auto split: sum.splits)
  have dk: "AList.delete ''kind'' ((''kind'', AStr nm) # cfg) = cfg"
    using delete_absent [OF c] by simp
  show ?thesis
  proof (cases "map_of cfg' ''features''")
    case None
    then have "''features'' \<notin> fst ` set cfg'" by (simp add: map_of_eq_None_iff)
    then have "AList.delete ''features'' cfg' = cfg'" by (rule delete_absent)
    with d have "cfg' = (''kind'', AStr nm) # cfg" by simp
    with None k Some cfg' dk show ?thesis
      by (simp add: FromConfig_kind_def GetTargetKind_def)
  next
    case (Some v)
    with f obtain m where m: "v = AMap m" "list_all (\<lambda>kv. is_str (fst kv)) m"
      by (cases v) auto
    have "FromConfig_kind env ((''kind'', AStr nm) # cfg)
        = Inr (k, map (\<lambda>kv. (the_str (fst kv), snd kv)) m,
               AList.delete ''kind'' (AList.delete ''features'' cfg'))"
      using k \<open>target_parser k = Some parser\<close> cfg' Some m
      by (simp add: FromConfig_kind_def GetTargetKind_def)
    with d dk show ?thesis by simp
  qed
qed

lemma FromConfig_tag_canonical:
  "''tag'' \<notin> fst ` set cfg \<Longrightarrow> FromConfig_tag cfg = Inr ([], cfg)"
  by (simp add: FromConfig_tag_def map_of_absent)

lemma FromConfig_finish_hooks:
  assumes "map_of es ''from_device'' = None"
    and "case preprocessor k of
           None \<Rightarrow> True
         | Some f \<Rightarrow>
             (case f (foldl set_if_absent es (key2default k)) of
                Inl e \<Rightarrow> False
              | Inr a' \<Rightarrow> same_map a' a)"
    and "map_of (foldl set_if_absent es (key2default k)) = map_of a"
  shows "\<exists>a'. FromConfig_finish env k feats [] ks None es
               = Inr (TargetNode (name k) None [] ks a' feats) \<and> map_of a' = map_of a"
  using assms
  by (auto simp: FromConfig_finish_def same_map_iff split: option.splits sum.splits)

lemma FromConfig_body_canonical:
  assumes K: "kinds env nm = Some k" "\<not> (preprocessor k \<noteq> None \<and> target_parser k \<noteq> None)"
    and P: "case target_parser k of
              None \<Rightarrow> True
            | Some parser \<Rightarrow>
                (case parser ((''kind'', AStr nm) # keys_entry ks @ es) of
                   Inl e \<Rightarrow> False
                 | Inr cfg' \<Rightarrow>
                     AList.delete ''features'' cfg' = (''kind'', AStr nm) # keys_entry ks @ es \<and>
                     (case map_of cfg' ''features'' of
                        None \<Rightarrow> True
                      | Some (AMap m) \<Rightarrow> list_all (\<lambda>kv. is_str (fst kv)) m
                      | Some _ \<Rightarrow> False))"
    and F: "case preprocessor k of
           None \<Rightarrow> True
         | Some f \<Rightarrow>
             (case f (foldl set_if_absent es (key2default k)) of
                Inl e \<Rightarrow> False
              | Inr a' \<Rightarrow> same_map a' a)"
    and M: "map_of (foldl set_if_absent es (key2default k)) = map_of a"
    and es: "\<forall>kv \<in> set es. reads_back k kv"
    and ks: "distinct ks" "list_all (\<lambda>d. d \<in> set ks) (device_key es)"
      "ks = [] \<Longrightarrow> default_keys k = []"
  shows "\<exists>a' feats. FromConfig_body env fs fc d ((''kind'', AStr nm) # keys_entry ks @ es)
     = Some (Inr (TargetNode (name k) None [] ks a' feats)) \<and> map_of a' = map_of a"
proof -
  have "\<forall>kv \<in> set es. fst kv \<notin> set reserved_keys"
    using es by (auto elim: reads_backD)
  note r = not_reserved [OF this]
  let ?ke = "keys_entry ks"
  have fst_ke: "fst ` set ?ke \<subseteq> {''keys''}" by (simp add: keys_entry_def)
  have neq: "''kind'' \<noteq> ''keys''" "''tag'' \<noteq> ''keys''" "''features'' \<noteq> ''keys''" by simp_all
  have f0: "\<not> count ((''kind'', AStr nm) # ?ke @ es) ''features''"
  proof -
    have "''features'' \<notin> fst ` set ((''kind'', AStr nm) # ?ke @ es)"
      using r(5) fst_ke neq by auto
    then show ?thesis by (rule not_count)
  qed
  have "''kind'' \<notin> fst ` set (?ke @ es)" using r(1) fst_ke neq by auto
  from FromConfig_kind_hooks [OF K P this] obtain feats where
    f1: "FromConfig_kind env ((''kind'', AStr nm) # ?ke @ es) = Inr (k, feats, ?ke @ es)" ..
  have f2: "FromConfig_tag (?ke @ es) = Inr ([], ?ke @ es)"
    using r(2) fst_ke neq by (intro FromConfig_tag_canonical) auto
  have f3: "FromConfig_keys k (?ke @ es) = Inr (ks, es)"
    by (rule FromConfig_keys_canonical [OF r(3) ks])
  have f4: "AList.delete ''host'' es = es" using r(4) by (rule delete_absent)
  have f4': "map_of es ''host'' = None" using r(4) by (rule map_of_absent)
  have f5: "mapM_res (FromConfig_attr fs fc k) es = Some (Inr es)"
    by (rule mapM_res_attrs [OF es])
  have "map_of es ''from_device'' = None" using r(6) by (rule map_of_absent)
  from FromConfig_finish_hooks [OF this F M, of env feats ks] obtain a' where
    f6: "FromConfig_finish env k feats [] ks None es = Inr (TargetNode (name k) None [] ks a' feats)"
    and m: "map_of a' = map_of a" by blast
  have "FromConfig_body env fs fc d ((''kind'', AStr nm) # ?ke @ es)
      = Some (Inr (TargetNode (name k) None [] ks a' feats))"
    unfolding FromConfig_body_def
    by (simp only: f0 f1 f2 f3 f4 f4' f5 f6 if_False sum.case prod.case option.case bind_res_simps)
  with m show ?thesis by blast
qed

subsection \<open>The round trip\<close>

lemma attr_ok_rendered:
  assumes "attr_ok k kv"
  shows "snd kv = ANone \<or> (\<exists>r. rendered (snd kv) = Inr r)"
proof (cases "silent (snd kv)")
  case True
  then show ?thesis by (auto simp: silent_def)
next
  case False
  with assms have "reads_back k kv" by (simp add: attr_ok_def)
  then show ?thesis by (auto elim: reads_backD)
qed

lemma reads_back_flag:
  assumes "reads_back k kv"
  shows "flag kv \<noteq> []" "passes (CHR '' '') (flag kv)" "render (snd kv) \<noteq> []"
    "(case FindTypeInfo k (fst kv) of
        Inl e \<Rightarrow> Some (Inl e)
      | Inr info \<Rightarrow> ParseType_str fs (render (snd kv)) info) = Some (Inr (snd kv))"
proof -
  from assms obtain r info where r: "rendered (snd kv) = Inr r" "r \<noteq> []"
    and t: "token_scan (CHR '' '') (''-'' @ fst kv @ ''='' @ r) False"
    and i: "map_of (key2vtype k) (fst kv) = Some info"
    and p: "ParseType_str (\<lambda>s. None) r info = Some (Inr (snd kv))"
    by (rule reads_backD)
  have f: "flag kv = ''-'' @ fst kv @ ''='' @ r" and rr: "render (snd kv) = r"
    using r(1) by (simp_all add: flag_def render_def)
  show "flag kv \<noteq> []" by (simp add: flag_def)
  show "passes (CHR '' '') (flag kv)" unfolding f using t by (rule token_scan_passes)
  show "render (snd kv) \<noteq> []" using rr r(2) by simp
  show "(case FindTypeInfo k (fst kv) of
        Inl e \<Rightarrow> Some (Inl e)
      | Inr info \<Rightarrow> ParseType_str fs (render (snd kv)) info) = Some (Inr (snd kv))"
    using i ParseType_str_callback [OF p, of fs] by (simp add: FindTypeInfo_def rr)
qed

lemma canonical_roundtrip:
  assumes c: "canonical env t"
  shows "\<exists>s t'. str t = Inr s \<and> FromString (Suc (Suc (Suc n))) env s = Some (Inr t') \<and>
           observationally_equal t' t"
proof -
  from c obtain s where str: "str t = Inr s"
    by (auto simp: canonical_def split: sum.splits)
  show ?thesis
  proof (cases "tags env s")
    case (Some t')
    with c str have "observationally_equal t' t" by (simp add: canonical_def)
    moreover have "FromString (Suc (Suc (Suc n))) env s = Some (Inr t')"
      using Some by (simp add: FromString_Suc FromString_body_def)
    ultimately show ?thesis using str by blast
  next
    case None
    with c str obtain k where k: "kinds env (kind t) = Some k"
      by (auto simp: canonical_def split: option.splits)
    with c str None have nm: "name k = kind t" and kn: "kind_name (kind t)"
      and hooks: "hooks_ok k t" and ht: "host t = None" "tag t = []"
      and kk: "keys_ok k (keys t)"
      and dev: "list_all (\<lambda>d. d \<in> set (keys t)) (device_key (written (attrs t)))"
      and a: "distinct (map fst (attrs t))" "list_all (attr_ok k) (attrs t)"
      and dflt: "list_all (\<lambda>kd. count (attrs t) (fst kd)) (key2default k)"
      by (simp_all add: canonical_def)
    define es where "es = written (attrs t)"
    define toks where "toks = keys_tokens (keys t) @ map flag es"
    define parse where "parse = (\<lambda>key val. case FindTypeInfo k key of
                           Inl e \<Rightarrow> Some (Inl e)
                         | Inr info \<Rightarrow> ParseType_str (FromString (Suc n) env) val info)"
    have rend: "\<forall>kv \<in> set (attrs t). snd kv = ANone \<or> (\<exists>r. rendered (snd kv) = Inr r)"
      using a(2) attr_ok_rendered by (auto simp: list_all_iff)
    have s: "s = kind t @ concat (map ((#) (CHR '' '')) toks) @ (if es = [] then '' '' else [])"
      using str_written [OF rend a(1)] str by (simp add: toks_def es_def)
    have es_set: "set es = {kv \<in> set (attrs t). \<not> silent (snd kv)}"
      unfolding es_def by (rule written_set [OF a(1)])
    have es_rb: "\<forall>kv \<in> set es. reads_back k kv"
      using a(2) es_set by (auto simp: list_all_iff attr_ok_def)
    have es_dist: "distinct (map fst es)" unfolding es_def by (rule written_distinct [OF a(1)])
    have "\<forall>kv \<in> set es. fst kv \<notin> set reserved_keys"
      using es_rb by (auto elim: reads_backD)
    note r = not_reserved [OF this]
    have ks: "distinct (keys t)" "keys t = [] \<Longrightarrow> default_keys k = []"
      using kk by (simp_all add: keys_ok_def)
    have kn': "kind t \<noteq> []" "hd (kind t) \<noteq> CHR ''{''" "passes (CHR '' '') (kind t)"
      using kn by (simp_all add: kind_name_def token_scan_passes)
    have kt_pass: "list_all (\<lambda>v. v \<noteq> [] \<and> passes (CHR '' '') v) (keys_tokens (keys t))"
      using kk by (auto simp: keys_tokens_def keys_ok_def token_scan_passes)
    have es_pass: "list_all (\<lambda>v. v \<noteq> [] \<and> passes (CHR '' '') v) (map flag es)"
      using es_rb reads_back_flag(1,2) by (auto simp: list_all_iff)
    have split: "SplitString s (CHR '' '') = Inr (kind t # toks)"
      unfolding s toks_def using kt_pass es_pass
      by (intro SplitString_flags kn') auto
    have es_entry: "list_all (\<lambda>kv. fst kv \<noteq> [] \<and> hd (fst kv) \<noteq> CHR ''-'' \<and>
             CHR ''='' \<notin> set (fst kv) \<and> render (snd kv) \<noteq> [] \<and>
             parse (fst kv) (render (snd kv)) = Some (Inr (snd kv))) es"
      unfolding list_all_iff parse_def
    proof
      fix kv assume "kv \<in> set es"
      with es_rb have rb: "reads_back k kv" by simp
      then have "fst kv \<noteq> []" "hd (fst kv) \<noteq> CHR ''-''" "CHR ''='' \<notin> set (fst kv)"
        by (auto elim: reads_backD)
      with reads_back_flag(3,4) [OF rb]
      show "fst kv \<noteq> [] \<and> hd (fst kv) \<noteq> CHR ''-'' \<and> CHR ''='' \<notin> set (fst kv) \<and>
            render (snd kv) \<noteq> [] \<and>
            (case FindTypeInfo k (fst kv) of
               Inl e \<Rightarrow> Some (Inl e)
             | Inr info \<Rightarrow> ParseType_str (FromString (Suc n) env) (render (snd kv)) info)
              = Some (Inr (snd kv))"
        by simp
    qed
    have loop: "FromRawString_loop parse toks [(''kind'', AStr (kind t))]
        = Some (Inr ((''kind'', AStr (kind t)) # keys_entry (keys t) @ es))"
    proof (cases "keys t = []")
      case True
      have "FromRawString_loop parse (map flag es) [(''kind'', AStr (kind t))]
          = Some (Inr ([(''kind'', AStr (kind t))] @ es))"
        using r(1) by (intro FromRawString_loop_flags es_entry es_dist) simp
      with True show ?thesis by (simp add: toks_def keys_tokens_def keys_entry_def)
    next
      case False
      with kk obtain info where ne: "str_keys (keys t) True \<noteq> []"
        and i: "map_of (key2vtype k) ''keys'' = Some info"
        and p: "ParseType_str (\<lambda>s. None) (str_keys (keys t) True) info
                  = Some (Inr (AArray (map AStr (keys t))))"
        by (auto simp: keys_ok_def split: option.splits)
      have pk: "parse ''keys'' (str_keys (keys t) True) = Some (Inr (AArray (map AStr (keys t))))"
        using i ParseType_str_callback [OF p] by (simp add: parse_def FindTypeInfo_def)
      have "FromRawString_loop parse
              ((''-'' @ ''keys'' @ ''='' @ str_keys (keys t) True) # map flag es)
              [(''kind'', AStr (kind t))]
          = FromRawString_loop parse (map flag es)
              ([(''kind'', AStr (kind t))] @ [(''keys'', AArray (map AStr (keys t)))])"
        by (rule FromRawString_loop_step [where parse = parse, OF _ _ _ ne pk]) simp_all
      also have "\<dots> = Some (Inr (([(''kind'', AStr (kind t))]
                          @ [(''keys'', AArray (map AStr (keys t)))]) @ es))"
        using r(1,3) by (intro FromRawString_loop_flags es_entry es_dist) auto
      finally show ?thesis using False by (simp add: toks_def keys_tokens_def keys_entry_def)
    qed
    have P: "case target_parser k of
              None \<Rightarrow> True
            | Some parser \<Rightarrow>
                (case parser ((''kind'', AStr (kind t)) # keys_entry (keys t) @ es) of
                   Inl e \<Rightarrow> False
                 | Inr cfg' \<Rightarrow>
                     AList.delete ''features'' cfg'
                       = (''kind'', AStr (kind t)) # keys_entry (keys t) @ es \<and>
                     (case map_of cfg' ''features'' of
                        None \<Rightarrow> True
                      | Some (AMap m) \<Rightarrow> list_all (\<lambda>kv. is_str (fst kv)) m
                      | Some _ \<Rightarrow> False))"
      using hooks unfolding hooks_ok_def reparsed_config_def es_def by blast
    have F: "case preprocessor k of
           None \<Rightarrow> True
         | Some f \<Rightarrow>
             (case f (foldl set_if_absent es (key2default k)) of
                Inl e \<Rightarrow> False
              | Inr a' \<Rightarrow> same_map a' (attrs t))"
      using hooks unfolding hooks_ok_def reparsed_attrs_def es_def by blast
    have H: "\<not> (preprocessor k \<noteq> None \<and> target_parser k \<noteq> None)"
      using hooks unfolding hooks_ok_def by blast
    have M: "map_of (foldl set_if_absent es (key2default k)) = map_of (attrs t)"
      unfolding es_def using a(2)
      by (intro reparsed_attrs_map a(1) dflt) (auto simp: list_all_iff attr_ok_def)
    have dev': "list_all (\<lambda>d. d \<in> set (keys t)) (device_key es)" using dev by (simp add: es_def)
    from FromConfig_body_canonical [OF k H P F M es_rb ks(1) dev' ks(2),
        of "FromString n env" "FromConfig n env" "ConstructorDispatcher n env"]
    obtain a' feats where
      cfg: "FromConfig (Suc n) env ((''kind'', AStr (kind t)) # keys_entry (keys t) @ es)
          = Some (Inr (TargetNode (name k) None [] (keys t) a' feats))"
      and m: "map_of a' = map_of (attrs t)"
      unfolding FromConfig_Suc by blast
    have s_ne: "s \<noteq> []" "s ! 0 \<noteq> CHR ''{''"
      using kn'(1,2) by (simp_all add: s nth_append hd_conv_nth)
    have raw: "FromRawString (Suc (Suc n)) env s
        = Some (Inr (TargetNode (name k) None [] (keys t) a' feats))"
      unfolding FromRawString_Suc FromRawString_body_def
      using s_ne(1) split k loop cfg
      by (simp add: GetTargetKind_def parse_def [symmetric])
    have "FromString (Suc (Suc (Suc n))) env s
        = Some (Inr (TargetNode (name k) None [] (keys t) a' feats))"
      unfolding FromString_Suc FromString_body_def using None s_ne raw by simp
    with str nm ht m show ?thesis by (auto simp: observationally_equal_def)
  qed
qed

subsection \<open>Plain targets are canonical\<close>

lemma plain_value_not_silent: "plain_value info v \<Longrightarrow> \<not> silent v"
proof -
  assume p: "plain_value info v"
  from plain_value_reads [OF p, of "\<lambda>s. None"] obtain r where "rendered v = Inr r" "r \<noteq> []"
    by blast
  moreover from p have "v \<noteq> ANone" by (cases info) auto
  ultimately show ?thesis by (simp add: silent_def)
qed

lemma plain_attr_name_chars:
  assumes "plain_attr_name key"
  shows "key \<noteq> []" "hd key \<noteq> CHR ''-''" "CHR '' '' \<notin> set key" "CHR ''='' \<notin> set key"
    "quote \<notin> set key" "escape \<notin> set key" "key \<notin> set reserved_keys"
  using assms by (auto simp: plain_attr_name_def list_all_iff)

lemma plain_attr_reads_back:
  assumes "plain_attr k kv"
  shows "reads_back k kv" "\<not> silent (snd kv)"
proof -
  from assms obtain info where n: "plain_attr_name (fst kv)"
    and i: "map_of (key2vtype k) (fst kv) = Some info" and v: "plain_value info (snd kv)"
    by (auto simp: plain_attr_def split: option.splits)
  from plain_value_reads [OF v, of "\<lambda>s. None"] obtain r where r: "rendered (snd kv) = Inr r"
    "r \<noteq> []" "\<And>rest. token_scan (CHR '' '') (r @ rest) False = token_scan (CHR '' '') rest False"
    "ParseType_str (\<lambda>s. None) r info = Some (Inr (snd kv))"
    by blast
  note c = plain_attr_name_chars [OF n]
  have "token_scan (CHR '' '') ((''-'' @ fst kv @ ''='') @ r @ []) False
      = token_scan (CHR '' '') (r @ []) False"
    using c by (intro token_scan_plain) (auto simp: quote_def escape_def)
  then have t: "token_scan (CHR '' '') (''-'' @ fst kv @ ''='' @ r) False"
    using r(3) [of "[]"] by simp
  show "reads_back k kv"
    unfolding reads_back_def r(1) sum.case i option.case using c r(2,4) t by simp
  show "\<not> silent (snd kv)" using v by (rule plain_value_not_silent)
qed

lemma plain_word_Uninterpret: "plain_word w \<Longrightarrow> Uninterpret w = w"
  by (simp add: Uninterpret_plain plain_wordD)

lemma plain_words_elems: "list_all plain_word ks \<Longrightarrow> list_all (plain_elem VStr) (map AStr ks)"
  by (induction ks) (simp_all add: plain_wordD)

lemma plain_words_Uninterpret: "list_all plain_word ks \<Longrightarrow> map Uninterpret ks = ks"
  by (induction ks) (simp_all add: plain_word_Uninterpret)

lemma plain_words_elem_text: "list_all plain_word ks \<Longrightarrow> map elem_text (map AStr ks) = ks"
  by (induction ks) (simp_all add: elem_text_def plain_word_Uninterpret)

lemma plain_words_text:
  assumes "list_all plain_word ks"
  shows "list_all (plain_elem VStr) (map AStr ks)"
    "map Uninterpret (map elem_text (map AStr ks)) = ks" "map elem_text (map AStr ks) = ks"
    by (simp_all only: plain_words_elems [OF assms] plain_words_elem_text [OF assms]
        plain_words_Uninterpret [OF assms])

lemma plain_keys_ok:
  assumes "distinct ks" "list_all plain_word ks"
    "if ks = [] then default_keys k = [] else map_of (key2vtype k) ''keys'' = Some (VArray VStr)"
  shows "keys_ok k ks"
proof (cases "ks = []")
  case True
  with assms show ?thesis by (simp add: keys_ok_def)
next
  case False
  note w = plain_words_text [OF assms(2)]
  have j: "str_keys ks True = joined (CHR '','') ks" by (rule str_keys_joined)
  have ne: "joined (CHR '','') ks \<noteq> []"
    using False assms(2) by (cases ks) (auto simp: joined_def plain_word_def)
  have sp: "list_all (\<lambda>m. CHR '' '' \<notin> set m) ks"
    using assms(2) by (auto simp: list_all_iff dest: plain_wordD)
  have "list_all (\<lambda>m. CHR '' '' \<notin> set m) (map elem_text (map AStr ks))"
    using sp w by simp
  from token_scan_joined [OF this, of "[]"] w
  have "token_scan (CHR '' '') (joined (CHR '','') ks @ []) False" by simp
  moreover have "token_scan (CHR '' '') (''-keys='' @ joined (CHR '','') ks @ []) False
      = token_scan (CHR '' '') (joined (CHR '','') ks @ []) False"
    by (intro token_scan_plain) (simp_all add: quote_def escape_def)
  ultimately have t: "token_scan (CHR '' '') (''-keys='' @ joined (CHR '','') ks) False" by simp
  from ParseType_str_elems [of VStr "map AStr ks" "\<lambda>s. None"] w
  have p: "ParseType_str (\<lambda>s. None) (joined (CHR '','') ks) (VArray VStr)
      = Some (Inr (AArray (map AStr ks)))"
    by simp
  show ?thesis
    unfolding keys_ok_def j using False assms(1,3) ne t p by (simp del: ParseType_str.simps)
qed

lemma plain_target_canonical:
  assumes p: "plain_target env t"
  shows "canonical env t"
proof -
  from p obtain k where k: "kinds env (kind t) = Some k"
    by (auto simp: plain_target_def split: option.splits)
  with p have nm: "name k = kind t" and kn: "plain_kind_name (kind t)"
    and hooks: "hooks_ok k t" and ht: "host t = None" "tag t = []"
    and ks: "distinct (keys t)" "list_all plain_word (keys t)"
    and kk: "if keys t = [] then default_keys k = []
             else map_of (key2vtype k) ''keys'' = Some (VArray VStr)"
    and dev: "list_all (\<lambda>d. d \<in> set (keys t)) (device_key (attrs t))"
    and a: "distinct (map fst (attrs t))" "list_all (plain_attr k) (attrs t)"
    and dflt: "list_all (\<lambda>kd. count (attrs t) (fst kd)) (key2default k)"
    and tg: "case str t of Inl e \<Rightarrow> False | Inr s \<Rightarrow> tags env s = None"
    by (simp_all add: plain_target_def)
  from tg obtain s where s: "str t = Inr s" "tags env s = None"
    by (auto split: sum.splits)
  have kn': "kind_name (kind t)"
  proof -
    have "token_scan (CHR '' '') (kind t @ []) False = token_scan (CHR '' '') [] False"
      using kn by (intro token_scan_plain) (auto simp: plain_kind_name_def list_all_iff)
    with kn show ?thesis by (simp add: kind_name_def plain_kind_name_def)
  qed
  have ok: "list_all (attr_ok k) (attrs t)"
    using a(2) plain_attr_reads_back by (auto simp: list_all_iff attr_ok_def)
  have "filter (\<lambda>kv. \<not> silent (snd kv)) (sorted_attrs (attrs t)) = sorted_attrs (attrs t)"
    using a(2) plain_attr_reads_back(2) sorted_attrs_set [OF a(1)]
    by (intro filter_True) (auto simp: list_all_iff)
  then have "map_of (written (attrs t)) = map_of (attrs t)"
    by (simp add: written_def sorted_attrs_map_of [OF a(1)])
  then have dev': "list_all (\<lambda>d. d \<in> set (keys t)) (device_key (written (attrs t)))"
    using dev by (simp add: device_key_def)
  show ?thesis
    unfolding canonical_def s sum.case option.case k
    using nm kn' hooks ht plain_keys_ok [OF ks kk] dev' a(1) ok dflt by simp
qed




end
